theory Spec2Isabelle
  imports Main
begin

section \<open>The page splitter of scripts/split\_llms\_pages.py\<close>

text \<open>
  The script splits one raw documentation text into page records with two regular
  expressions, compiled with \<^verbatim>\<open>re.MULTILINE\<close>:
  \<^verbatim>\<open>PAGE_PATTERN_WITH_URL   = ^# (.+)$\nSource: (https?://[^\n]+)\<close> and
  \<^verbatim>\<open>PAGE_PATTERN_HEADER_ONLY = ^# (.+)$\<close>.
  A text is a \<open>string\<close>; one \<open>char\<close> stands for one code point of the Python string
  (the code points below 256), so \<open>length\<close> is Python's \<^verbatim>\<open>len\<close>.
\<close>

subsection \<open>Characters and trimming\<close>

definition NL :: char where
  "NL = CHR 0x0A"

definition isspace :: "char \<Rightarrow> bool" where
  \<comment> \<open>Python's whitespace test on the code points below 256: the characters that
      \<^verbatim>\<open>str.strip()\<close> removes and that \<^verbatim>\<open>\s\<close> matches.\<close>
  "isspace c = (let n = (of_char c :: nat) in
      (9 \<le> n \<and> n \<le> 13) \<or> (28 \<le> n \<and> n \<le> 32) \<or> n = 133 \<or> n = 160)"

definition lstrip :: "string \<Rightarrow> string" where
  "lstrip s = dropWhile isspace s"

definition rstrip :: "string \<Rightarrow> string" where
  "rstrip s = rev (dropWhile isspace (rev s))"

definition strip :: "string \<Rightarrow> string" where
  \<comment> \<open>\<^verbatim>\<open>s.strip()\<close>\<close>
  "strip s = rstrip (lstrip s)"

definition slice :: "string \<Rightarrow> nat \<Rightarrow> nat \<Rightarrow> string" where
  \<comment> \<open>\<^verbatim>\<open>s[a:b]\<close> for non-negative \<open>a\<close>, \<open>b\<close>: empty when \<open>b \<le> a\<close>, cut at the end of \<open>s\<close>.\<close>
  "slice s a b = take (b - a) (drop a s)"

subsection \<open>Match objects and the two page patterns\<close>

record rmatch =
  m_start :: nat
  m_end :: nat
  m_group1 :: string
  m_group2 :: string

definition at_bol :: "string \<Rightarrow> nat \<Rightarrow> bool" where
  \<comment> \<open>\<^verbatim>\<open>^\<close> under MULTILINE: at the start of the text or right after a newline.\<close>
  "at_bol T p \<longleftrightarrow> p = 0 \<or> T ! (p - 1) = NL"

definition rest_of_line :: "string \<Rightarrow> string" where
  \<comment> \<open>What a greedy \<^verbatim>\<open>.+\<close> or \<^verbatim>\<open>[^\n]+\<close> consumes: everything up to the next newline.\<close>
  "rest_of_line s = takeWhile (\<lambda>c. c \<noteq> NL) s"

definition match_header_at :: "string \<Rightarrow> nat \<Rightarrow> rmatch option" where
  \<comment> \<open>\<^verbatim>\<open>^# (.+)$\<close> tried at position \<open>p\<close>. The greedy group runs to the end of the
      line, where \<^verbatim>\<open>$\<close> holds; it needs one character at least. The pattern has no
      second group: \<open>m_group2\<close> is left empty and never read.\<close>
  "match_header_at T p =
     (let s = drop p T; t = rest_of_line (drop 2 s) in
      if at_bol T p \<and> take 2 s = ''# '' \<and> t \<noteq> []
      then Some \<lparr>m_start = p, m_end = p + 2 + length t, m_group1 = t, m_group2 = []\<rparr>
      else None)"

definition is_url :: "string \<Rightarrow> bool" where
  \<comment> \<open>\<^verbatim>\<open>https?://[^\n]+\<close> against the rest of a line: the scheme and one more
      character at least.\<close>
  "is_url u \<longleftrightarrow> (take 7 u = ''http://'' \<and> 7 < length u) \<or> (take 8 u = ''https://'' \<and> 8 < length u)"

definition match_url_at :: "string \<Rightarrow> nat \<Rightarrow> rmatch option" where
  \<comment> \<open>\<^verbatim>\<open>^# (.+)$\nSource: (https?://[^\n]+)\<close> tried at position \<open>p\<close>: the title runs
      to the end of its line, a newline and the literal \<^verbatim>\<open>Source: \<close> follow, and the
      second group is the rest of that line.\<close>
  "match_url_at T p =
     (let s = drop p T; t = rest_of_line (drop 2 s); r = drop (2 + length t) s;
          u = rest_of_line (drop 9 r) in
      if at_bol T p \<and> take 2 s = ''# '' \<and> t \<noteq> [] \<and> take 9 r = NL # ''Source: '' \<and> is_url u
      then Some \<lparr>m_start = p, m_end = p + 2 + length t + 9 + length u,
                 m_group1 = t, m_group2 = u\<rparr>
      else None)"

function finditer :: "(string \<Rightarrow> nat \<Rightarrow> rmatch option) \<Rightarrow> string \<Rightarrow> nat \<Rightarrow> rmatch list" where
  "finditer mt T p =
     (if length T < p then []
      else case mt T p of
             None \<Rightarrow> finditer mt T (Suc p)
           | Some m \<Rightarrow> m # finditer mt T (max (Suc p) (m_end m)))"
  by pat_completeness auto
termination
  by (relation "measure (\<lambda>(mt, T, p). Suc (length T) - p)") auto

declare finditer.simps [simp del]

subsection \<open>Page records and the two splitters\<close>

record page =
  title :: string
  source_url :: "string option"
  content :: string
  content_length :: int

fun collect_pages :: "(rmatch \<Rightarrow> string option) \<Rightarrow> string \<Rightarrow> rmatch list \<Rightarrow> page list" where
  "collect_pages url T [] = []"
| "collect_pages url T (m # ms) =
     (let content_start = m_end m;
          content_end = (case ms of [] \<Rightarrow> length T | m' # _ \<Rightarrow> m_start m');
          page_content = strip (slice T content_start content_end)
      in \<lparr>title = strip (m_group1 m), source_url = url m,
          content = page_content, content_length = int (length page_content)\<rparr>
         # collect_pages url T ms)"

definition split_with_url_pattern :: "string \<Rightarrow> page list" where
  "split_with_url_pattern T =
     collect_pages (\<lambda>m. Some (strip (m_group2 m))) T (finditer match_url_at T 0)"

subsection \<open>Neutralising headers inside fenced code blocks\<close>

definition fence :: string where
  "fence = [CHR 0x60, CHR 0x60, CHR 0x60]"

fun find_fence :: "string \<Rightarrow> nat option" where
  \<comment> \<open>The index of the first occurrence of three backticks.\<close>
  "find_fence [] = None"
| "find_fence (c # cs) =
     (if take 3 (c # cs) = fence then Some 0 else map_option Suc (find_fence cs))"

definition match_fence_at :: "string \<Rightarrow> nat \<Rightarrow> rmatch option" where
  \<comment> \<open>The block pattern (three backticks, \<^verbatim>\<open>[\s\S]*?\<close>, three backticks) tried at
      position \<open>p\<close>: an opening fence at \<open>p\<close>, then, lazily, as
      few characters of any kind as possible up to the first closing fence that starts
      at \<open>p + 3\<close> or later. The pattern has no groups.\<close>
  "match_fence_at T p =
     (if take 3 (drop p T) = fence
      then (case find_fence (drop (p + 3) T) of
              None \<Rightarrow> None
            | Some q \<Rightarrow> Some \<lparr>m_start = p, m_end = p + 3 + q + 3, m_group1 = [], m_group2 = []\<rparr>)
      else None)"

fun sub_headers :: "bool \<Rightarrow> string \<Rightarrow> string" where
  \<comment> \<open>\<^verbatim>\<open>re.sub(r'^# ', '### ', block, flags=re.MULTILINE)\<close>, scanning left to right;
      the flag says whether \<^verbatim>\<open>^\<close> holds at the current position.\<close>
  "sub_headers bol [] = []"
| "sub_headers bol [c] = [c]"
| "sub_headers bol (c # d # cs) =
     (if bol \<and> c = CHR ''#'' \<and> d = CHR '' '' then ''### '' @ sub_headers False cs
      else c # sub_headers (c = NL) (d # cs))"

definition replace_headers_in_block :: "string \<Rightarrow> string" where
  \<comment> \<open>The block is searched as a string of its own: \<^verbatim>\<open>^\<close> holds at its first position.\<close>
  "replace_headers_in_block block = sub_headers True block"

fun resub :: "(string \<Rightarrow> string) \<Rightarrow> string \<Rightarrow> nat \<Rightarrow> rmatch list \<Rightarrow> string" where
  \<comment> \<open>\<^verbatim>\<open>re.sub(pattern, repl, T)\<close> with a function \<open>repl\<close>, given the matches of the
      pattern: the text between the matches is copied, each match is replaced.\<close>
  "resub repl T pos [] = drop pos T"
| "resub repl T pos (m # ms) =
     slice T pos (m_start m) @ repl (slice T (m_start m) (m_end m)) @ resub repl T (m_end m) ms"

definition neutralize_code_block_headers :: "string \<Rightarrow> string" where
  "neutralize_code_block_headers T =
     resub replace_headers_in_block T 0 (finditer match_fence_at T 0)"

definition split_with_header_pattern :: "string \<Rightarrow> page list" where
  "split_with_header_pattern T =
     (let content_neutralized = neutralize_code_block_headers T
      in collect_pages (\<lambda>m. None) content_neutralized
           (finditer match_header_at content_neutralized 0))"

subsection \<open>Processing one source\<close>

definition is_word :: "char \<Rightarrow> bool" where
  \<comment> \<open>\<^verbatim>\<open>\w\<close> on the code points below 256: letters, digits, other numeric characters
      and the underscore.\<close>
  "is_word c = (let n = (of_char c :: nat) in
      (48 \<le> n \<and> n \<le> 57) \<or> (65 \<le> n \<and> n \<le> 90) \<or> n = 95 \<or> (97 \<le> n \<and> n \<le> 122)
      \<or> n = 170 \<or> n = 178 \<or> n = 179 \<or> n = 181 \<or> n = 185 \<or> n = 186
      \<or> (188 \<le> n \<and> n \<le> 190) \<or> (192 \<le> n \<and> n \<le> 214) \<or> (216 \<le> n \<and> n \<le> 246)
      \<or> 248 \<le> n)"

function sub_spaces :: "string \<Rightarrow> string" where
  \<comment> \<open>\<^verbatim>\<open>re.sub(r'\s+', '_', s)\<close>: every maximal run of whitespace becomes one underscore.\<close>
  "sub_spaces [] = []"
| "sub_spaces (c # cs) =
     (if isspace c then CHR ''_'' # sub_spaces (dropWhile isspace cs) else c # sub_spaces cs)"
  by pat_completeness auto
termination
  by (relation "measure length") (auto simp: length_dropWhile_le less_Suc_eq_le)

definition safe_title :: "string \<Rightarrow> string" where
  "safe_title t =
     sub_spaces (strip (take 50 (filter (\<lambda>c. is_word c \<or> isspace c \<or> c = CHR ''-'') t)))"

definition digit_char :: "nat \<Rightarrow> char" where
  "digit_char d = char_of (48 + d)"

function decimal :: "nat \<Rightarrow> string" where
  "decimal n = (if n < 10 then [digit_char n] else decimal (n div 10) @ [digit_char (n mod 10)])"
  by pat_completeness auto
termination
  by (relation "measure id") auto

declare decimal.simps [simp del]

definition format_04d :: "nat \<Rightarrow> string" where
  \<comment> \<open>\<^verbatim>\<open>f'{i:04d}'\<close> for an index \<open>i \<ge> 0\<close>: decimal digits, zero-padded to four at least.\<close>
  "format_04d i = replicate (4 - length (decimal i)) (CHR ''0'') @ decimal i"

definition filename :: "nat \<Rightarrow> page \<Rightarrow> string" where
  "filename i p = format_04d i @ ''_'' @ safe_title (title p) @ ''.json''"

definition page_filenames :: "page list \<Rightarrow> string list" where
  \<comment> \<open>The names of the files written by the loop over \<^verbatim>\<open>enumerate(pages)\<close>.\<close>
  "page_filenames pages = map (\<lambda>(i, p). filename i p) (enumerate 0 pages)"

datatype status = Skipped | Failed | Success

record proc_result =
  status :: status
  error :: "string option"
  page_count :: int
  written :: "(string \<times> page) list"

definition process_source :: "string \<Rightarrow> string option \<Rightarrow> bool \<Rightarrow> proc_result" where
  \<comment> \<open>\<open>input_path\<close> is the path of the raw file and \<open>raw\<close> what the file system holds
      there: \<open>None\<close> when the file does not exist, its text otherwise. \<open>written\<close> lists the
      page files in the order they are written, each with the page that is serialised
      into it. The summary manifest (with its floating-point average) is left out.\<close>
  "process_source input_path raw use_header_only =
     (case raw of
        None \<Rightarrow> \<lparr>status = Skipped, error = Some (''File not found: '' @ input_path),
                 page_count = 0, written = []\<rparr>
      | Some txt \<Rightarrow>
          (let pages = (if use_header_only then split_with_header_pattern txt
                        else split_with_url_pattern txt)
           in if pages = []
              then \<lparr>status = Failed, error = Some ''No pages found - check regex pattern'',
                    page_count = 0, written = []\<rparr>
              else \<lparr>status = Success, error = None, page_count = int (length pages),
                    written = zip (page_filenames pages) pages\<rparr>))"

subsection \<open>Both strategies at once\<close>

definition boundaries :: "bool \<Rightarrow> string \<Rightarrow> rmatch list" where
  \<comment> \<open>The matches the chosen splitter iterates over: strategy B searches the
      neutralised text.\<close>
  "boundaries use_header_only T =
     (if use_header_only then finditer match_header_at (neutralize_code_block_headers T) 0
      else finditer match_url_at T 0)"

definition split_pages :: "bool \<Rightarrow> string \<Rightarrow> page list" where
  \<comment> \<open>The choice \<^verbatim>\<open>process_source\<close> makes between the two splitters.\<close>
  "split_pages use_header_only T =
     (if use_header_only then split_with_header_pattern T else split_with_url_pattern T)"

subsection \<open>Notions used to state the properties\<close>

definition is_digit :: "char \<Rightarrow> bool" where
  "is_digit c \<longleftrightarrow> 48 \<le> (of_char c :: nat) \<and> (of_char c :: nat) \<le> 57"

definition digits_value :: "string \<Rightarrow> nat" where
  \<comment> \<open>The number a string of decimal digits denotes; leading zeros do not count.\<close>
  "digits_value s = foldl (\<lambda>a c. 10 * a + ((of_char c :: nat) - 48)) 0 s"

definition wf_matcher :: "(string \<Rightarrow> nat \<Rightarrow> rmatch option) \<Rightarrow> string \<Rightarrow> bool" where
  "wf_matcher mt T \<longleftrightarrow>
     (\<forall>p m. mt T p = Some m \<longrightarrow> m_start m = p \<and> p < m_end m \<and> m_end m \<le> length T)"

fun chain :: "nat \<Rightarrow> nat \<Rightarrow> rmatch list \<Rightarrow> bool" where
  "chain n lo [] = True"
| "chain n lo (m # ms) =
     (lo \<le> m_start m \<and> m_start m < m_end m \<and> m_end m \<le> n \<and> chain n (m_end m) ms)"

text \<open>
  The boundary of strategy A in the words of the specification: a position where a line
  starts; the line there is \<open>#\<close>, a space and a non-empty title; a next line exists and
  begins with \<open>Source: \<close> followed by an absolute URL.
\<close>

definition line_at :: "string \<Rightarrow> nat \<Rightarrow> string" where
  "line_at T p = takeWhile (\<lambda>c. c \<noteq> NL) (drop p T)"

definition header_line :: "string \<Rightarrow> bool" where
  "header_line l \<longleftrightarrow> take 2 l = ''# '' \<and> 2 < length l"

definition source_line :: "string \<Rightarrow> bool" where
  "source_line l \<longleftrightarrow> (take 15 l = ''Source: http://'' \<and> 15 < length l)
     \<or> (take 16 l = ''Source: https://'' \<and> 16 < length l)"

definition url_boundary :: "string \<Rightarrow> nat \<Rightarrow> bool" where
  "url_boundary T p \<longleftrightarrow>
     at_bol T p \<and> header_line (line_at T p) \<and> p + length (line_at T p) < length T \<and>
     source_line (line_at T (p + length (line_at T p) + 1))"

text \<open>
  Putting the output back together: for each boundary in turn, the text of the match (the
  header line, and the URL line under strategy A), then the body up to the next boundary
  as the whitespace trimmed from its front, the content of the page record and the
  whitespace trimmed from its back. \<open>searched\<close> is the text the pattern is run on.
\<close>

definition lead_ws :: "string \<Rightarrow> string" where
  "lead_ws s = takeWhile isspace s"

definition trail_ws :: "string \<Rightarrow> string" where
  "trail_ws s = rev (takeWhile isspace (rev (lstrip s)))"

definition searched :: "bool \<Rightarrow> string \<Rightarrow> string" where
  "searched use_header_only T = (if use_header_only then neutralize_code_block_headers T else T)"

fun covered :: "string \<Rightarrow> rmatch list \<Rightarrow> page list \<Rightarrow> string" where
  "covered S (m # ms) (p # ps) =
     (let gap = slice S (m_end m) (case ms of [] \<Rightarrow> length S | m' # _ \<Rightarrow> m_start m')
      in slice S (m_start m) (m_end m) @ lead_ws gap @ content p @ trail_ws gap @ covered S ms ps)"
| "covered S ms ps = []"

definition reassemble :: "bool \<Rightarrow> string \<Rightarrow> string" where
  "reassemble h T = covered (searched h T) (boundaries h T) (split_pages h T)"

text \<open>
  A position lies in a fenced code block when it is strictly inside a match of the block
  pattern; \<open>marked\<close> are the positions where a line starts in a block with \<open>#\<close> and a
  space, and \<open>demoted\<close> is what such a position contributes to the rewritten text.
\<close>

definition in_block :: "string \<Rightarrow> nat \<Rightarrow> bool" where
  "in_block T k \<longleftrightarrow> list_ex (\<lambda>m. m_start m < k \<and> k < m_end m) (finditer match_fence_at T 0)"

definition marked :: "string \<Rightarrow> nat \<Rightarrow> bool" where
  "marked T k \<longleftrightarrow> in_block T k \<and> at_bol T k \<and> take 2 (drop k T) = ''# ''"

definition demoted :: "string \<Rightarrow> nat \<Rightarrow> string" where
  "demoted T k = (if marked T k then ''##'' else []) @ [T ! k]"

definition hdr_at :: "string \<Rightarrow> nat \<Rightarrow> bool" where
  "hdr_at B i \<longleftrightarrow> B ! i = CHR ''#'' \<and> Suc i < length B \<and> B ! Suc i = CHR '' ''"

definition line_count :: "string \<Rightarrow> nat" where
  "line_count s = Suc (length (filter (\<lambda>c. c = NL) s))"

text \<open>
  Lines are numbered from 0; \<open>line_starts\<close> lists the positions where the lines of a
  text start. \<open>new_pos\<close> is where a position of the input lands in the rewritten text.
\<close>

definition new_pos :: "string \<Rightarrow> nat \<Rightarrow> nat" where
  "new_pos T k = k + 2 * length (filter (marked T) [0..<k])"

fun nl_from :: "nat \<Rightarrow> string \<Rightarrow> nat list" where
  "nl_from off [] = []"
| "nl_from off (c # cs) = (if c = NL then [Suc off] else []) @ nl_from (Suc off) cs"

definition line_starts :: "string \<Rightarrow> nat list" where
  "line_starts s = 0 # nl_from 0 s"

text \<open>
  Cutting a prefix of length \<open>s\<close> off a text moves every later match by \<open>s\<close>; a
  pattern is shift invariant at \<open>s\<close> when it matches the cut text exactly where it
  matched the whole text.
\<close>

definition shift_match :: "nat \<Rightarrow> rmatch \<Rightarrow> rmatch" where
  "shift_match s m = m\<lparr>m_start := m_start m - s, m_end := m_end m - s\<rparr>"

definition shift_invariant :: "(string \<Rightarrow> nat \<Rightarrow> rmatch option) \<Rightarrow> string \<Rightarrow> nat \<Rightarrow> bool" where
  "shift_invariant mt T s \<longleftrightarrow>
     (\<forall>q. mt (drop s T) q = map_option (shift_match s) (mt T (s + q)))"

section \<open>Properties\<close>

subsection \<open>The loop over the matches\<close>

lemma length_collect_pages: "length (collect_pages url T ms) = length ms"
  by (induction ms) (simp_all add: Let_def)

lemma collect_pages_nth_title:
  "i < length ms \<Longrightarrow> title (collect_pages url T ms ! i) = strip (m_group1 (ms ! i))"
proof (induction ms arbitrary: i)
  case Nil
  then show ?case by simp
next
  case (Cons m ms)
  then show ?case by (cases i) (simp_all add: Let_def)
qed

lemma collect_pages_content_length:
  "p \<in> set (collect_pages url T ms) \<Longrightarrow> content_length p = int (length (content p))"
  by (induction ms) (auto simp: Let_def)

lemma split_pages_boundaries:
  "split_pages h T =
     collect_pages (if h then (\<lambda>m. None) else (\<lambda>m. Some (strip (m_group2 m))))
       (if h then neutralize_code_block_headers T else T) (boundaries h T)"
  by (simp add: split_pages_def boundaries_def split_with_header_pattern_def
      split_with_url_pattern_def Let_def)

lemma length_split_pages: "length (split_pages h T) = length (boundaries h T)"
  by (simp add: split_pages_boundaries length_collect_pages)

subsection \<open>The matches found by the search loop\<close>

lemma finditer_chain:
  "wf_matcher mt T \<Longrightarrow> chain (length T) p (finditer mt T p)"
proof (induction mt T p rule: finditer.induct)
  case (1 mt T p)
  show ?case
  proof (cases "length T < p")
    case True
    then show ?thesis by (subst finditer.simps) simp
  next
    case False
    show ?thesis
    proof (cases "mt T p")
      case None
      with False 1 have "chain (length T) (Suc p) (finditer mt T (Suc p))" by simp
      then have "chain (length T) p (finditer mt T (Suc p))"
        by (cases "finditer mt T (Suc p)") simp_all
      with None False show ?thesis by (subst finditer.simps) simp
    next
      case (Some m)
      with 1(3) have w: "m_start m = p" "p < m_end m" "m_end m \<le> length T"
        by (auto simp: wf_matcher_def)
      then have mx: "max (Suc p) (m_end m) = m_end m" by simp
      from 1(2) [OF False Some] 1(3) mx
      have "chain (length T) (m_end m) (finditer mt T (m_end m))" by simp
      with Some False w mx show ?thesis by (subst finditer.simps) simp
    qed
  qed
qed

lemma finditer_set:
  assumes "wf_matcher mt T"
    and "\<forall>p m q. mt T p = Some m \<longrightarrow> p < q \<longrightarrow> q < m_end m \<longrightarrow> mt T q = None"
  shows "set (finditer mt T p) = {m. \<exists>q. p \<le> q \<and> q \<le> length T \<and> mt T q = Some m}"
  using assms
proof (induction mt T p rule: finditer.induct)
  case (1 mt T p)
  show ?case
  proof (cases "length T < p")
    case True
    then show ?thesis by (subst finditer.simps) auto
  next
    case False
    show ?thesis
    proof (cases "mt T p")
      case None
      with False 1 have ih: "set (finditer mt T (Suc p)) =
          {m. \<exists>q. Suc p \<le> q \<and> q \<le> length T \<and> mt T q = Some m}" by simp
      have "{m. \<exists>q. Suc p \<le> q \<and> q \<le> length T \<and> mt T q = Some m}
          = {m. \<exists>q. p \<le> q \<and> q \<le> length T \<and> mt T q = Some m}"
      proof -
        have "\<And>q m. p \<le> q \<Longrightarrow> mt T q = Some m \<Longrightarrow> Suc p \<le> q"
          using None by (metis le_antisym not_less_eq_eq option.distinct(1))
        then show ?thesis by (auto simp: Suc_le_eq dest: less_imp_le)
      qed
      with ih None False show ?thesis by (subst finditer.simps) simp
    next
      case (Some m)
      with 1(3) have w: "m_start m = p" "p < m_end m" "m_end m \<le> length T"
        by (auto simp: wf_matcher_def)
      then have mx: "max (Suc p) (m_end m) = m_end m" by simp
      from 1(2) [OF False Some] 1(3,4) mx
      have ih: "set (finditer mt T (m_end m)) =
          {m'. \<exists>q. m_end m \<le> q \<and> q \<le> length T \<and> mt T q = Some m'}" by simp
      have inner: "\<And>q. p < q \<Longrightarrow> q < m_end m \<Longrightarrow> mt T q = None"
        using 1(4) Some by blast
      have "{m'. \<exists>q. p \<le> q \<and> q \<le> length T \<and> mt T q = Some m'}
          = insert m {m'. \<exists>q. m_end m \<le> q \<and> q \<le> length T \<and> mt T q = Some m'}"
      proof (rule set_eqI, rule iffI)
        fix x assume "x \<in> {m'. \<exists>q. p \<le> q \<and> q \<le> length T \<and> mt T q = Some m'}"
        then obtain q where q: "p \<le> q" "q \<le> length T" "mt T q = Some x" by blast
        show "x \<in> insert m {m'. \<exists>q. m_end m \<le> q \<and> q \<le> length T \<and> mt T q = Some m'}"
        proof (cases "q = p")
          case True with q Some show ?thesis by simp
        next
          case False
          with q have "p < q" by simp
          with inner [of q] q(3) have "m_end m \<le> q" by (cases "q < m_end m") simp_all
          with q show ?thesis by blast
        qed
      next
        fix x assume "x \<in> insert m {m'. \<exists>q. m_end m \<le> q \<and> q \<le> length T \<and> mt T q = Some m'}"
        then consider "x = m" | q where "m_end m \<le> q" "q \<le> length T" "mt T q = Some x"
          by blast
        then show "x \<in> {m'. \<exists>q. p \<le> q \<and> q \<le> length T \<and> mt T q = Some m'}"
        proof cases
          case 1
          with Some False show ?thesis by (auto intro!: exI [of _ p])
        next
          case 2
          with w have "p \<le> q" by simp
          with 2 show ?thesis by blast
        qed
      qed
      with ih Some False mx show ?thesis by (subst finditer.simps) simp
    qed
  qed
qed

text \<open>
  C6. The end-to-end example of strategy A: the text with the two headers \<open>Intro\<close> and
  \<open>Next\<close>, each followed by its \<open>Source:\<close> line and one line of body, splits into exactly
  two page records, in this order, with the titles, URLs and contents of the example.
\<close>

theorem example_strategy_A:
  "split_with_url_pattern
     (''# Intro'' @ [NL] @ ''Source: https://example.com/a'' @ [NL] @ ''Hello world.'' @ [NL] @
      ''# Next'' @ [NL] @ ''Source: https://example.com/b'' @ [NL] @ ''Bye.'' @ [NL]) =
   [\<lparr>title = ''Intro'', source_url = Some ''https://example.com/a'',
     content = ''Hello world.'', content_length = 12\<rparr>,
    \<lparr>title = ''Next'', source_url = Some ''https://example.com/b'',
     content = ''Bye.'', content_length = 4\<rparr>]"
  by code_simp

text \<open>
  C7. Whatever the input and the strategy, the \<open>content_length\<close> of every returned page
  record is the number of characters of its \<open>content\<close>.
\<close>

theorem content_length_exact:
  "p \<in> set (split_with_url_pattern T) \<union> set (split_with_header_pattern T) \<Longrightarrow>
   content_length p = int (length (content p))"
  by (auto simp: split_with_url_pattern_def split_with_header_pattern_def Let_def
      dest: collect_pages_content_length)

theorem content_length_exact_witness:
  "\<lparr>title = ''A'', source_url = None, content = ''body'', content_length = 4\<rparr>
     \<in> set (split_with_url_pattern (''# A'' @ [NL] @ ''body''))
       \<union> set (split_with_header_pattern (''# A'' @ [NL] @ ''body'')) \<and>
   content_length \<lparr>title = ''A'', source_url = None, content = ''body'', content_length = 4\<rparr>
     = int (length (content
         \<lparr>title = ''A'', source_url = None, content = ''body'', content_length = 4\<rparr>))"
proof -
  have h: "\<lparr>title = ''A'', source_url = None, content = ''body'', content_length = 4\<rparr>
     \<in> set (split_with_url_pattern (''# A'' @ [NL] @ ''body''))
       \<union> set (split_with_header_pattern (''# A'' @ [NL] @ ''body''))"
    by code_simp
  from h content_length_exact [OF h] show ?thesis by simp
qed

text \<open>
  C3. When the pattern of the chosen strategy matches nowhere in a non-empty input, the
  splitter returns the empty sequence and \<open>process_source\<close> returns a result record
  with status \<open>Failed\<close>, the no-pages-found message and no page written: a value, not an
  exception, and not a page holding the whole input.
\<close>

theorem no_boundary_failure:
  assumes "T \<noteq> []" and "boundaries h T = []"
  shows "split_pages h T = [] \<and>
         process_source path (Some T) h =
           \<lparr>status = Failed, error = Some ''No pages found - check regex pattern'',
            page_count = 0, written = []\<rparr>"
proof -
  have "split_pages h T = []"
    using assms(2) length_split_pages [of h T] by simp
  then show ?thesis
    by (simp add: process_source_def split_pages_def Let_def)
qed

theorem no_boundary_failure_witness:
  "''no headers at all'' \<noteq> [] \<and> boundaries True ''no headers at all'' = [] \<and>
   split_pages True ''no headers at all'' = [] \<and>
   process_source ''raw/X/llms-full.txt'' (Some ''no headers at all'') True =
     \<lparr>status = Failed, error = Some ''No pages found - check regex pattern'',
      page_count = 0, written = []\<rparr>"
proof -
  have a: "''no headers at all'' \<noteq> []" by simp
  have b: "boundaries True ''no headers at all'' = []" by code_simp
  from a b no_boundary_failure [OF a b, of "''raw/X/llms-full.txt''"] show ?thesis by simp
qed

text \<open>
  C8. A boundary whose title capture is empty after trimming still gives a page record,
  at the same place in the sequence, with the empty string as its title, and the source
  is processed with status \<open>Success\<close>.
\<close>

theorem empty_title_accepted:
  assumes "i < length (boundaries h T)" and "strip (m_group1 (boundaries h T ! i)) = []"
  shows "i < length (split_pages h T) \<and> title (split_pages h T ! i) = [] \<and>
         status (process_source path (Some T) h) = Success"
proof -
  have l: "length (split_pages h T) = length (boundaries h T)"
    by (rule length_split_pages)
  have t: "title (split_pages h T ! i) = []"
    using assms by (simp add: split_pages_boundaries collect_pages_nth_title)
  have "split_pages h T \<noteq> []"
    using l assms(1) by auto
  then have "status (process_source path (Some T) h) = Success"
    by (simp add: process_source_def split_pages_def Let_def)
  with l t assms(1) show ?thesis by simp
qed

theorem empty_title_accepted_witness:
  "0 < length (boundaries False (''#   '' @ [NL] @ ''Source: http://x'' @ [NL] @ ''body'')) \<and>
   strip (m_group1 (boundaries False (''#   '' @ [NL] @ ''Source: http://x'' @ [NL] @ ''body'') ! 0)) = [] \<and>
   title (split_pages False (''#   '' @ [NL] @ ''Source: http://x'' @ [NL] @ ''body'') ! 0) = [] \<and>
   status (process_source ''raw/X/llms-full.txt''
     (Some (''#   '' @ [NL] @ ''Source: http://x'' @ [NL] @ ''body'')) False) = Success"
proof -
  have a: "0 < length (boundaries False (''#   '' @ [NL] @ ''Source: http://x'' @ [NL] @ ''body''))"
    by code_simp
  have b: "strip (m_group1 (boundaries False
      (''#   '' @ [NL] @ ''Source: http://x'' @ [NL] @ ''body'') ! 0)) = []"
    by code_simp
  from a b empty_title_accepted [OF a b, of "''raw/X/llms-full.txt''"] show ?thesis by simp
qed

subsection \<open>File names of the persisted pages\<close>

lemma of_char_digit_char: "d < 10 \<Longrightarrow> (of_char (digit_char d) :: nat) = 48 + d"
  by (simp add: digit_char_def)

lemma is_digit_digit_char: "d < 10 \<Longrightarrow> is_digit (digit_char d)"
  by (simp add: is_digit_def of_char_digit_char)

lemma decimal_digits: "\<forall>c \<in> set (decimal n). is_digit c"
proof (induction n rule: decimal.induct)
  case (1 n)
  show ?case
  proof (cases "n < 10")
    case True
    then show ?thesis by (subst decimal.simps) (simp add: is_digit_digit_char)
  next
    case False
    with 1 show ?thesis by (subst decimal.simps) (simp add: is_digit_digit_char)
  qed
qed

lemma digits_value_decimal: "digits_value (decimal n) = n"
proof (induction n rule: decimal.induct)
  case (1 n)
  show ?case
  proof (cases "n < 10")
    case True
    then show ?thesis
      by (subst decimal.simps) (simp add: digits_value_def of_char_digit_char)
  next
    case False
    with 1 have "digits_value (decimal (n div 10)) = n div 10" by simp
    with False show ?thesis
      by (subst decimal.simps) (simp add: digits_value_def of_char_digit_char)
  qed
qed

lemma digits_value_zeros: "foldl (\<lambda>a c. 10 * a + ((of_char c :: nat) - 48)) 0 (replicate k (CHR ''0'')) = 0"
  by (induction k) simp_all

lemma digits_value_format: "digits_value (format_04d i) = i"
  using digits_value_decimal [of i]
  by (simp add: format_04d_def digits_value_def digits_value_zeros)

lemma format_04d_digits: "\<forall>c \<in> set (format_04d i). is_digit c"
  using decimal_digits [of i] by (auto simp: format_04d_def is_digit_def)

lemma takeWhile_filename: "takeWhile is_digit (filename i p) = format_04d i"
proof -
  have "takeWhile is_digit (format_04d i @ (CHR ''_'' # (safe_title (title p) @ ''.json''))) = format_04d i"
    using format_04d_digits [of i] by (simp add: takeWhile_append2 is_digit_def)
  then show ?thesis by (simp add: filename_def)
qed

lemma filename_index: "filename i p = filename j q \<Longrightarrow> i = j"
proof -
  assume "filename i p = filename j q"
  then have "takeWhile is_digit (filename i p) = takeWhile is_digit (filename j q)" by simp
  then have "format_04d i = format_04d j" by (simp add: takeWhile_filename)
  then have "digits_value (format_04d i) = digits_value (format_04d j)" by simp
  then show "i = j" by (simp add: digits_value_format)
qed

lemma distinct_page_filenames: "distinct (page_filenames pages)"
proof -
  have "inj_on (\<lambda>(i, p). filename i p) (set (enumerate 0 pages))"
  proof (rule inj_onI)
    fix x y
    assume x: "x \<in> set (enumerate 0 pages)" and y: "y \<in> set (enumerate 0 pages)"
      and e: "(case x of (i, p) \<Rightarrow> filename i p) = (case y of (i, p) \<Rightarrow> filename i p)"
    obtain i p where xp: "x = (i, p)" by (cases x)
    obtain j q where yq: "y = (j, q)" by (cases y)
    from e xp yq have "i = j" by (auto dest: filename_index)
    moreover from x xp have "p = pages ! i" by (simp add: in_set_enumerate_eq)
    moreover from y yq have "q = pages ! j" by (simp add: in_set_enumerate_eq)
    ultimately show "x = y" using xp yq by simp
  qed
  then show ?thesis
    by (simp add: page_filenames_def distinct_map distinct_enumerate)
qed

text \<open>
  C9. Each page file is named by the running index, zero-padded to four digits at least,
  an underscore, the sanitised title and \<open>.json\<close>; the names of any list of pages are
  pairwise distinct, whatever the titles, and so are the names \<open>process_source\<close> writes.
\<close>

theorem filenames_distinct:
  "distinct (page_filenames pages) \<and>
   distinct (map fst (written (process_source path raw h))) \<and>
   (\<forall>i < length pages. 4 \<le> length (format_04d i) \<and>
      page_filenames pages ! i = format_04d i @ ''_'' @ safe_title (title (pages ! i)) @ ''.json'')"
proof -
  have a: "distinct (page_filenames pages)"
    by (rule distinct_page_filenames)
  have len: "\<And>ps. length (page_filenames ps) = length ps"
    by (simp add: page_filenames_def)
  have b: "distinct (map fst (written (process_source path raw h)))"
    by (cases raw) (simp_all add: process_source_def Let_def len distinct_page_filenames)
  have c: "\<forall>i < length pages. 4 \<le> length (format_04d i) \<and>
      page_filenames pages ! i = format_04d i @ ''_'' @ safe_title (title (pages ! i)) @ ''.json''"
    by (auto simp: page_filenames_def nth_enumerate_eq filename_def format_04d_def)
  from a b c show ?thesis by blast
qed

theorem filenames_distinct_witness:
  "page_filenames
     [\<lparr>title = ''Same title'', source_url = None, content = ''a'', content_length = 1\<rparr>,
      \<lparr>title = ''Same  title!'', source_url = None, content = ''b'', content_length = 1\<rparr>]
     = [''0000_Same_title.json'', ''0001_Same_title.json''] \<and>
   distinct (page_filenames
     [\<lparr>title = ''Same title'', source_url = None, content = ''a'', content_length = 1\<rparr>,
      \<lparr>title = ''Same  title!'', source_url = None, content = ''b'', content_length = 1\<rparr>])"
proof -
  have e: "page_filenames
     [\<lparr>title = ''Same title'', source_url = None, content = ''a'', content_length = 1\<rparr>,
      \<lparr>title = ''Same  title!'', source_url = None, content = ''b'', content_length = 1\<rparr>]
     = [''0000_Same_title.json'', ''0001_Same_title.json'']"
    by code_simp
  have d: "distinct (page_filenames
     [\<lparr>title = ''Same title'', source_url = None, content = ''a'', content_length = 1\<rparr>,
      \<lparr>title = ''Same  title!'', source_url = None, content = ''b'', content_length = 1\<rparr>])"
    using filenames_distinct [of "[\<lparr>title = ''Same title'', source_url = None, content = ''a'', content_length = 1\<rparr>,
      \<lparr>title = ''Same  title!'', source_url = None, content = ''b'', content_length = 1\<rparr>]"]
    by (rule conjunct1)
  from e d show ?thesis by (rule conjI)
qed

subsection \<open>The boundaries of strategy A\<close>

lemma rol_take:
  "take n s = k \<Longrightarrow> length k = n \<Longrightarrow> NL \<notin> set k \<Longrightarrow>
   rest_of_line s = k @ rest_of_line (drop n s)"
proof -
  assume a: "take n s = k" "length k = n" "NL \<notin> set k"
  have "s = k @ drop n s" using a(1) by (metis append_take_drop_id)
  then have "rest_of_line s = takeWhile (\<lambda>c. c \<noteq> NL) (k @ drop n s)"
    by (simp add: rest_of_line_def)
  also have "\<dots> = k @ takeWhile (\<lambda>c. c \<noteq> NL) (drop n s)"
    using a(3) by (intro takeWhile_append2) auto
  finally show ?thesis by (simp add: rest_of_line_def)
qed

lemma take_rol: "n \<le> length (rest_of_line s) \<Longrightarrow> take n (rest_of_line s) = take n s"
proof -
  assume n: "n \<le> length (rest_of_line s)"
  have "s = rest_of_line s @ dropWhile (\<lambda>c. c \<noteq> NL) s"
    by (simp add: rest_of_line_def)
  then have "take n s = take n (rest_of_line s @ dropWhile (\<lambda>c. c \<noteq> NL) s)" by simp
  also have "\<dots> = take n (rest_of_line s)" using n by simp
  finally show ?thesis by simp
qed

lemma rol_stop:
  "length (rest_of_line s) < length s \<Longrightarrow> s ! length (rest_of_line s) = NL"
  unfolding rest_of_line_def using nth_length_takeWhile [of "\<lambda>c. c \<noteq> NL" s] by simp

lemma line_at_rol: "line_at T q = rest_of_line (drop q T)"
  by (simp add: line_at_def rest_of_line_def)

lemma NL_notin_header: "NL \<notin> set ''# ''" by (simp add: NL_def)
lemma NL_notin_source: "NL \<notin> set ''Source: ''" by (simp add: NL_def)

lemma source_line_iff: "source_line (''Source: '' @ u) \<longleftrightarrow> is_url u"
  by (auto simp: source_line_def is_url_def)


lemma length_take_eq: "take n xs = ys \<Longrightarrow> length ys \<le> length xs"
  by (metis length_take min.cobounded1)

lemma url_match_imp_boundary:
  assumes "match_url_at T p = Some m"
  shows "url_boundary T p"
proof -
  define s where "s = drop p T"
  define t where "t = rest_of_line (drop 2 s)"
  define r where "r = drop (2 + length t) s"
  define u where "u = rest_of_line (drop 9 r)"
  from assms have c: "at_bol T p \<and> take 2 s = ''# '' \<and> t \<noteq> [] \<and> take 9 r = NL # ''Source: '' \<and> is_url u"
    unfolding match_url_at_def Let_def s_def [symmetric] t_def [symmetric] r_def [symmetric]
      u_def [symmetric]
    by (simp split: if_splits)
  then have c2: "take 2 s = ''# ''" and c4: "take 9 r = NL # ''Source: ''" by simp_all
  have l1: "line_at T p = ''# '' @ t"
    using rol_take [OF c2 _ NL_notin_header]
    by (simp add: line_at_def rest_of_line_def s_def t_def del: drop_drop)
  have h: "header_line (line_at T p)" using c by (simp add: l1 header_line_def)
  have lr: "9 \<le> length r" using length_take_eq [OF c4] by simp
  have lr2: "length r = length T - p - (2 + length t)" by (simp add: r_def s_def)
  have lt: "p + length (line_at T p) < length T" using lr lr2 by (simp add: l1)
  have dr: "drop (p + length (line_at T p) + 1) T = drop 1 r"
    by (simp add: l1 r_def s_def add.commute)
  have t8: "take 8 (drop 1 r) = ''Source: ''"
  proof -
    have "take 8 (drop 1 r) = drop 1 (take 9 r)" by (simp add: drop_take)
    then show ?thesis by (simp add: c4)
  qed
  have "rest_of_line (drop 1 r) = ''Source: '' @ rest_of_line (drop 8 (drop 1 r))"
    using rol_take [OF t8 _ NL_notin_source] by simp
  then have "rest_of_line (drop 1 r) = ''Source: '' @ u"
    by (simp add: u_def)
  then have l2: "line_at T (p + length (line_at T p) + 1) = ''Source: '' @ u"
    by (simp only: line_at_rol [of T "p + length (line_at T p) + 1"] dr)
  have "source_line (line_at T (p + length (line_at T p) + 1))"
    unfolding l2 source_line_iff using c by simp
  with c h lt show ?thesis by (simp add: url_boundary_def)
qed

lemma url_boundary_imp_match:
  assumes "url_boundary T p"
  shows "\<exists>m. match_url_at T p = Some m"
proof -
  define s where "s = drop p T"
  define t where "t = rest_of_line (drop 2 s)"
  define r where "r = drop (2 + length t) s"
  define u where "u = rest_of_line (drop 9 r)"
  define l1 where "l1 = line_at T p"
  from assms have b: "at_bol T p" "take 2 l1 = ''# ''" "2 < length l1" "p + length l1 < length T"
    "source_line (line_at T (p + length l1 + 1))"
    by (simp_all add: url_boundary_def header_line_def l1_def)
  have l1r: "l1 = rest_of_line s" by (simp add: l1_def line_at_def rest_of_line_def s_def)
  have c2: "take 2 s = ''# ''"
    using take_rol [of 2 s] b(2,3) by (simp add: l1r)
  have l1t: "l1 = ''# '' @ t"
    using rol_take [OF c2 _ NL_notin_header] by (simp add: l1r t_def)
  then have len1: "length l1 = 2 + length t" by simp
  have c3: "t \<noteq> []" using b(3) len1 by auto
  have ls: "length l1 < length s" using b(4) by (simp add: s_def)
  have "s ! length l1 = NL" using rol_stop [of s] ls by (simp add: l1r)
  moreover have "r = drop (length l1) s" by (simp add: r_def len1)
  ultimately have hr: "r = NL # drop 1 r"
    using ls by (metis Cons_nth_drop_Suc One_nat_def drop_drop plus_1_eq_Suc)
  have dr: "drop (p + length l1 + 1) T = drop 1 r"
    by (simp add: len1 r_def s_def add.commute)
  define l2 where "l2 = rest_of_line (drop 1 r)"
  have sl: "source_line l2"
    using b(5) by (simp only: line_at_rol [of T "p + length l1 + 1"] dr l2_def)
  then have "take 8 l2 = ''Source: '' \<and> 8 \<le> length l2"
    by (auto simp: source_line_def dest: arg_cong [where f = "take 8"])
  then have t8: "take 8 (drop 1 r) = ''Source: ''"
    using take_rol [of 8 "drop 1 r"] by (simp add: l2_def)
  have l2u: "l2 = ''Source: '' @ u"
    using rol_take [OF t8 _ NL_notin_source] by (simp add: l2_def u_def)
  have c5: "is_url u" using sl unfolding l2u source_line_iff .
  have c4: "take 9 r = NL # ''Source: ''"
  proof -
    have "take 9 r = take 9 (NL # drop 1 r)" using hr by simp
    also have "\<dots> = NL # take 8 (drop 1 r)" by (simp add: numeral_eq_Suc)
    finally show ?thesis using t8 by simp
  qed
  show ?thesis
    unfolding match_url_at_def Let_def s_def [symmetric] t_def [symmetric] r_def [symmetric]
      u_def [symmetric]
    using b(1) c2 c3 c4 c5 by simp
qed


lemma rol_split: "s = rest_of_line s @ drop (length (rest_of_line s)) s"
  unfolding rest_of_line_def
  by (metis dropWhile_eq_drop takeWhile_dropWhile_id)

lemma NL_notin_rol: "NL \<notin> set (rest_of_line s)"
  unfolding rest_of_line_def by (auto dest: set_takeWhileD)

lemma take_split: "take n s = k \<Longrightarrow> s = k @ drop n s"
  by (metis append_take_drop_id)

lemma url_match_decomp:
  assumes "match_url_at T p = Some m"
  shows "\<exists>t u rest. drop p T = (''# '' @ t) @ NL # (''Source: '' @ u) @ rest \<and>
           NL \<notin> set t \<and> NL \<notin> set u \<and> t \<noteq> [] \<and> is_url u \<and> at_bol T p \<and>
           m = \<lparr>m_start = p, m_end = p + 2 + length t + 9 + length u,
                m_group1 = t, m_group2 = u\<rparr>"
proof -
  define s where "s = drop p T"
  define t where "t = rest_of_line (drop 2 s)"
  define r where "r = drop (2 + length t) s"
  define u where "u = rest_of_line (drop 9 r)"
  from assms have c: "at_bol T p \<and> take 2 s = ''# '' \<and> t \<noteq> [] \<and> take 9 r = NL # ''Source: '' \<and> is_url u
      \<and> m = \<lparr>m_start = p, m_end = p + 2 + length t + 9 + length u, m_group1 = t, m_group2 = u\<rparr>"
    unfolding match_url_at_def Let_def s_def [symmetric] t_def [symmetric] r_def [symmetric]
      u_def [symmetric]
    by (simp split: if_splits)
  then have c2: "take 2 s = ''# ''" and c4: "take 9 r = NL # ''Source: ''" by simp_all
  have s1: "s = ''# '' @ drop 2 s" by (rule take_split [OF c2])
  have s2: "drop 2 s = t @ drop (length t) (drop 2 s)"
    unfolding t_def by (rule rol_split)
  have s3: "drop (length t) (drop 2 s) = r" by (simp add: r_def add.commute)
  have s4: "r = (NL # ''Source: '') @ drop 9 r" by (rule take_split [OF c4])
  have s5: "drop 9 r = u @ drop (length u) (drop 9 r)"
    unfolding u_def by (rule rol_split)
  have "s = ''# '' @ t @ (NL # ''Source: '') @ u @ drop (length u) (drop 9 r)"
    using s1 s2 s3 s4 s5 by metis
  then have "drop p T = (''# '' @ t) @ NL # (''Source: '' @ u) @ drop (length u) (drop 9 r)"
    by (simp add: s_def)
  moreover have "NL \<notin> set t" "NL \<notin> set u" by (simp_all add: t_def u_def NL_notin_rol)
  ultimately show ?thesis using c by blast
qed

lemma nl_position:
  "i < length A + 1 + length B \<Longrightarrow> (A @ NL # B @ rest) ! i = NL \<Longrightarrow>
   NL \<notin> set A \<Longrightarrow> NL \<notin> set B \<Longrightarrow> i = length A"
proof (rule ccontr)
  assume a: "i < length A + 1 + length B" "(A @ NL # B @ rest) ! i = NL"
    "NL \<notin> set A" "NL \<notin> set B" "i \<noteq> length A"
  show False
  proof (cases "i < length A")
    case True
    then have "(A @ NL # B @ rest) ! i = A ! i" by (simp add: nth_append)
    with a True show False by (metis nth_mem)
  next
    case False
    with a(5) obtain j where j: "i = length A + 1 + j" "j < length B"
      using a(1) by (metis add.assoc less_diff_conv2 add.commute le_add_diff_inverse
          linorder_neqE_nat not_less_eq_eq Suc_eq_plus1 not_less)
    then have "(A @ NL # B @ rest) ! i = B ! j" by (simp add: nth_append)
    with a j show False by (metis nth_mem)
  qed
qed

lemma wf_matcher_url: "wf_matcher match_url_at T"
  unfolding wf_matcher_def
proof (intro allI impI)
  fix p m assume "match_url_at T p = Some m"
  from url_match_decomp [OF this] obtain t u rest where
    d: "drop p T = (''# '' @ t) @ NL # (''Source: '' @ u) @ rest"
    and m: "m = \<lparr>m_start = p, m_end = p + 2 + length t + 9 + length u,
                m_group1 = t, m_group2 = u\<rparr>" by blast
  have "length (drop p T) = 2 + length t + 9 + length u + length rest"
    by (simp add: d)
  then have "p + 2 + length t + 9 + length u \<le> length T" by simp
  with m show "m_start m = p \<and> p < m_end m \<and> m_end m \<le> length T" by simp
qed

lemma url_no_inner:
  assumes "match_url_at T p = Some m" and "p < q" and "q < m_end m"
  shows "match_url_at T q = None"
proof (rule ccontr)
  assume "match_url_at T q \<noteq> None"
  then have q: "at_bol T q" "take 2 (drop q T) = ''# ''"
    by (auto simp: match_url_at_def Let_def split: if_splits)
  from url_match_decomp [OF assms(1)] obtain t u rest where
    d: "drop p T = (''# '' @ t) @ NL # (''Source: '' @ u) @ rest"
    and n: "NL \<notin> set t" "NL \<notin> set u"
    and m: "m = \<lparr>m_start = p, m_end = p + 2 + length t + 9 + length u,
                m_group1 = t, m_group2 = u\<rparr>" by blast
  define i where "i = q - 1 - p"
  have i: "q = p + i + 1" using assms(2) by (simp add: i_def)
  have il: "i < length (''# '' @ t) + 1 + length (''Source: '' @ u)"
    using assms(3) m i by simp
  have pl: "p + i < length T"
  proof -
    have "length (drop p T) = 2 + length t + 9 + length u + length rest" by (simp add: d)
    with il show ?thesis by simp
  qed
  have "T ! (q - 1) = drop p T ! i" using i pl by simp
  with q(1) i have "drop p T ! i = NL" by (simp add: at_bol_def)
  then have "((''# '' @ t) @ NL # (''Source: '' @ u) @ rest) ! i = NL" by (simp only: d)
  from nl_position [OF il this] n have ie: "i = length (''# '' @ t)" by (simp add: NL_def)
  have "drop q T = drop (i + 1) (drop p T)" by (simp add: i add.commute add.left_commute)
  also have "\<dots> = (''Source: '' @ u) @ rest" unfolding d ie by simp
  finally have "take 2 (drop q T) = ''So''" by simp
  with q(2) show False by simp
qed


lemma chain_lower: "chain n lo ms \<Longrightarrow> m \<in> set ms \<Longrightarrow> lo \<le> m_start m \<and> m_end m \<le> n"
proof (induction ms arbitrary: lo)
  case Nil
  then show ?case by simp
next
  case (Cons a ms)
  show ?case
  proof (cases "m = a")
    case True
    with Cons.prems show ?thesis by simp
  next
    case False
    with Cons.prems have "m \<in> set ms" "chain n (m_end a) ms" by simp_all
    from Cons.IH [OF this(2) this(1)] Cons.prems(1) show ?thesis by simp
  qed
qed

lemma chain_sorted: "chain n lo ms \<Longrightarrow> sorted_wrt (<) (map m_start ms)"
proof (induction ms arbitrary: lo)
  case Nil
  then show ?case by simp
next
  case (Cons a ms)
  then have c: "chain n (m_end a) ms" and lt: "m_start a < m_end a" by simp_all
  have "\<forall>m \<in> set ms. m_start a < m_start m"
    using chain_lower [OF c] lt by fastforce
  with Cons.IH [OF c] show ?case by simp
qed

lemma url_match_iff: "(\<exists>m. match_url_at T p = Some m) \<longleftrightarrow> url_boundary T p"
  using url_match_imp_boundary url_boundary_imp_match by blast

lemma url_boundary_in_range: "url_boundary T p \<Longrightarrow> p < length T"
  by (simp add: url_boundary_def)

lemma url_starts_set:
  "set (map m_start (finditer match_url_at T 0)) = {p. url_boundary T p}"
proof -
  have s: "set (finditer match_url_at T 0)
      = {m. \<exists>q. 0 \<le> q \<and> q \<le> length T \<and> match_url_at T q = Some m}"
    by (rule finditer_set [OF wf_matcher_url]) (blast intro: url_no_inner)
  show ?thesis
  proof (rule set_eqI, rule iffI)
    fix p assume "p \<in> set (map m_start (finditer match_url_at T 0))"
    then obtain m where "m \<in> set (finditer match_url_at T 0)" "p = m_start m" by auto
    with s obtain q where q: "match_url_at T q = Some m" by auto
    with wf_matcher_url [of T] have "m_start m = q" by (auto simp: wf_matcher_def)
    with q \<open>p = m_start m\<close> url_match_iff [of T p] show "p \<in> {p. url_boundary T p}" by auto
  next
    fix p assume "p \<in> {p. url_boundary T p}"
    then have b: "url_boundary T p" by simp
    with url_match_iff [of T p] obtain m where m: "match_url_at T p = Some m" by auto
    with wf_matcher_url [of T] have ms: "m_start m = p" by (auto simp: wf_matcher_def)
    from url_boundary_in_range [OF b] m s have "m \<in> set (finditer match_url_at T 0)" by auto
    with ms show "p \<in> set (map m_start (finditer match_url_at T 0))" by force
  qed
qed

text \<open>
  C5. Under strategy A the boundaries are exactly the positions where a line starts that
  consists of \<open>#\<close>, a space and a non-empty title, and is followed by a line that begins
  with \<open>Source: \<close> and an \<open>http://\<close> or \<open>https://\<close> URL; one page record is
  emitted for each of them, and none anywhere else: a header line whose next line is not
  such a URL line is not a boundary.
\<close>

theorem url_boundaries_exact:
  "map m_start (boundaries False T) = filter (url_boundary T) [0..<length T] \<and>
   length (split_with_url_pattern T) = length (filter (url_boundary T) [0..<length T])"
proof -
  let ?xs = "map m_start (finditer match_url_at T 0)"
  let ?ys = "filter (url_boundary T) [0..<length T]"
  have sx: "sorted_wrt (<) ?xs"
    by (rule chain_sorted [OF finditer_chain [OF wf_matcher_url]])
  have sy: "sorted_wrt (<) ?ys"
    by (rule sorted_wrt_filter) simp
  have "set ?ys = {p. url_boundary T p}"
    using url_boundary_in_range by auto
  then have "set ?xs = set ?ys" by (simp only: url_starts_set)
  with sx sy have e: "?xs = ?ys"
    by (metis strict_sorted_equal)
  have "length (split_with_url_pattern T) = length ?xs"
    by (simp add: split_with_url_pattern_def length_collect_pages)
  with e show ?thesis by (simp add: boundaries_def)
qed

theorem url_boundaries_exact_witness:
  "map m_start (boundaries False
     (''# A'' @ [NL] @ ''no url'' @ [NL] @ ''# B'' @ [NL] @ ''Source: http://b'')) = [11] \<and>
   filter (url_boundary (''# A'' @ [NL] @ ''no url'' @ [NL] @ ''# B'' @ [NL] @ ''Source: http://b''))
     [0..<length (''# A'' @ [NL] @ ''no url'' @ [NL] @ ''# B'' @ [NL] @ ''Source: http://b'')] = [11]"
proof -
  have e: "filter (url_boundary (''# A'' @ [NL] @ ''no url'' @ [NL] @ ''# B'' @ [NL] @ ''Source: http://b''))
     [0..<length (''# A'' @ [NL] @ ''no url'' @ [NL] @ ''# B'' @ [NL] @ ''Source: http://b'')] = [11]"
    by code_simp
  have a: "map m_start (boundaries False
     (''# A'' @ [NL] @ ''no url'' @ [NL] @ ''# B'' @ [NL] @ ''Source: http://b'')) =
     filter (url_boundary (''# A'' @ [NL] @ ''no url'' @ [NL] @ ''# B'' @ [NL] @ ''Source: http://b''))
     [0..<length (''# A'' @ [NL] @ ''no url'' @ [NL] @ ''# B'' @ [NL] @ ''Source: http://b'')]"
    using url_boundaries_exact
      [of "''# A'' @ [NL] @ ''no url'' @ [NL] @ ''# B'' @ [NL] @ ''Source: http://b''"]
    by (rule conjunct1)
  from a e have "map m_start (boundaries False
     (''# A'' @ [NL] @ ''no url'' @ [NL] @ ''# B'' @ [NL] @ ''Source: http://b'')) = [11]"
    by (rule trans)
  from this e show ?thesis by (rule conjI)
qed

subsection \<open>Coverage of the text by the pages\<close>

lemma strip_parts: "lead_ws s @ strip s @ trail_ws s = s"
proof -
  have a: "lead_ws s @ lstrip s = s" by (simp add: lead_ws_def lstrip_def)
  have "lstrip s = strip s @ trail_ws s"
    unfolding strip_def rstrip_def trail_ws_def
    by (metis rev_append rev_rev_ident takeWhile_dropWhile_id)
  with a show ?thesis by simp
qed

lemma strip_parts_app: "lead_ws s @ strip s @ trail_ws s @ r = s @ r"
  using strip_parts [of s] by (metis append.assoc)

lemma slice_drop: "a \<le> b \<Longrightarrow> slice T a b @ drop b T = drop a T"
proof -
  assume "a \<le> b"
  then have "drop b T = drop (b - a) (drop a T)" by simp
  then show ?thesis unfolding slice_def by (metis append_take_drop_id)
qed

lemma slice_to_end: "slice T a (length T) = drop a T"
  by (simp add: slice_def)

lemma covered_collect:
  "chain (length T) lo ms \<Longrightarrow> ms \<noteq> [] \<Longrightarrow>
   covered T ms (collect_pages url T ms) = drop (m_start (hd ms)) T"
proof (induction ms arbitrary: lo)
  case Nil
  then show ?case by simp
next
  case (Cons m ms)
  then have se: "m_start m \<le> m_end m" and c: "chain (length T) (m_end m) ms" by simp_all
  show ?case
  proof (cases ms)
    case Nil
    have "slice T (m_start m) (m_end m) @ drop (m_end m) T = drop (m_start m) T"
      by (rule slice_drop [OF se])
    with Nil show ?thesis by (simp add: Let_def strip_parts slice_to_end)
  next
    case (Cons m' ms')
    with c have le: "m_end m \<le> m_start m'" by simp
    from Cons.IH [OF c] Cons have ih: "covered T ms (collect_pages url T ms) = drop (m_start m') T"
      by simp
    have "slice T (m_start m) (m_end m) @ slice T (m_end m) (m_start m') @ drop (m_start m') T
        = drop (m_start m) T"
      by (simp add: slice_drop [OF le] slice_drop [OF se])
    with ih Cons show ?thesis by (simp add: Let_def strip_parts_app)
  qed
qed

lemma wf_matcher_header: "wf_matcher match_header_at T"
  unfolding wf_matcher_def
proof (intro allI impI)
  fix p m assume a: "match_header_at T p = Some m"
  define s where "s = drop p T"
  define t where "t = rest_of_line (drop 2 s)"
  from a have c: "take 2 s = ''# '' \<and> t \<noteq> [] \<and>
      m = \<lparr>m_start = p, m_end = p + 2 + length t, m_group1 = t, m_group2 = []\<rparr>"
    unfolding match_header_at_def Let_def s_def [symmetric] t_def [symmetric]
    by (simp split: if_splits)
  have "length t \<le> length (drop 2 s)"
    unfolding t_def rest_of_line_def by (rule length_takeWhile_le)
  moreover have "t \<noteq> []" using c by simp
  ultimately have "2 + length t \<le> length s" by (cases t) auto
  then have "p + 2 + length t \<le> length T" by (simp add: s_def)
  with c show "m_start m = p \<and> p < m_end m \<and> m_end m \<le> length T" by simp
qed

lemma boundaries_chain: "chain (length (searched h T)) 0 (boundaries h T)"
  by (simp add: searched_def boundaries_def finditer_chain wf_matcher_header wf_matcher_url)

text \<open>
  C1, as stated, fails. The pages, the boundary markers and the trimmed whitespace do not
  give the input back when text precedes the first boundary (strategy A below), nor when
  strategy B has rewritten a header inside a code block (second input).
\<close>

theorem pages_partition_counterexample:
  "boundaries False (''junk'' @ [NL] @ ''# A'' @ [NL] @ ''Source: http://x'' @ [NL] @ ''body'') \<noteq> [] \<and>
   reassemble False (''junk'' @ [NL] @ ''# A'' @ [NL] @ ''Source: http://x'' @ [NL] @ ''body'') \<noteq> (''junk'' @ [NL] @ ''# A'' @ [NL] @ ''Source: http://x'' @ [NL] @ ''body'') \<and>
   boundaries True (''# A'' @ [NL] @ fence @ [NL] @ ''# c'' @ [NL] @ fence @ [NL] @ ''body'') \<noteq> [] \<and>
   reassemble True (''# A'' @ [NL] @ fence @ [NL] @ ''# c'' @ [NL] @ fence @ [NL] @ ''body'') \<noteq> (''# A'' @ [NL] @ fence @ [NL] @ ''# c'' @ [NL] @ fence @ [NL] @ ''body'')"
  by code_simp

text \<open>
  C1, amended. When there is one boundary at least, the boundary markers, the page
  contents and the whitespace trimmed around them, concatenated in order, are exactly the
  searched text from the first boundary to its end: the input itself under strategy A,
  the input with the headers inside code blocks rewritten under strategy B. The text in
  front of the first boundary belongs to no page.
\<close>

theorem pages_cover_from_first_boundary:
  assumes "boundaries h T \<noteq> []"
  shows "take (m_start (hd (boundaries h T))) (searched h T) @ reassemble h T = searched h T"
proof -
  have "reassemble h T = drop (m_start (hd (boundaries h T))) (searched h T)"
    unfolding reassemble_def
    using covered_collect [OF boundaries_chain assms] split_pages_boundaries [of h T]
    by (simp add: searched_def)
  then show ?thesis by simp
qed

theorem pages_cover_from_first_boundary_witness:
  "boundaries False (''junk'' @ [NL] @ ''# A'' @ [NL] @ ''Source: http://x'' @ [NL] @ ''body'') \<noteq> [] \<and>
   take (m_start (hd (boundaries False (''junk'' @ [NL] @ ''# A'' @ [NL] @ ''Source: http://x'' @ [NL] @ ''body'')))) (searched False (''junk'' @ [NL] @ ''# A'' @ [NL] @ ''Source: http://x'' @ [NL] @ ''body'')) @ reassemble False (''junk'' @ [NL] @ ''# A'' @ [NL] @ ''Source: http://x'' @ [NL] @ ''body'')
     = searched False (''junk'' @ [NL] @ ''# A'' @ [NL] @ ''Source: http://x'' @ [NL] @ ''body'')"
proof -
  have a: "boundaries False (''junk'' @ [NL] @ ''# A'' @ [NL] @ ''Source: http://x'' @ [NL] @ ''body'') \<noteq> []"
    by code_simp
  from a pages_cover_from_first_boundary [OF a] show ?thesis by (rule conjI)
qed

subsection \<open>The rewritten text, position by position\<close>

lemma sub_headers_index:
  "j \<le> length B \<Longrightarrow>
   sub_headers f (drop j B) =
     concat (map (\<lambda>i. (if (if i = j then f else B ! (i - 1) = NL) \<and> hdr_at B i
                        then ''##'' else []) @ [B ! i]) [j..<length B])"
proof (induction "length B - j" arbitrary: j f rule: less_induct)
  case less
  show ?case
  proof (cases "j = length B")
    case True
    then show ?thesis by simp
  next
    case False
    with less.prems have jl: "j < length B" by simp
    then have d1: "drop j B = B ! j # drop (Suc j) B" by (simp add: Cons_nth_drop_Suc)
    have u1: "[j..<length B] = j # [Suc j..<length B]" using jl by (simp add: upt_conv_Cons)
    show ?thesis
    proof (cases "Suc j = length B")
      case True
      then have "drop (Suc j) B = []" by simp
      with d1 True u1 show ?thesis by (simp add: hdr_at_def)
    next
      case False
      with jl have sl: "Suc j < length B" by simp
      then have d2: "drop (Suc j) B = B ! Suc j # drop (Suc (Suc j)) B"
        by (simp add: Cons_nth_drop_Suc)
      have u2: "[Suc j..<length B] = Suc j # [Suc (Suc j)..<length B]"
        using sl by (simp add: upt_conv_Cons)
      show ?thesis
      proof (cases "f \<and> B ! j = CHR ''#'' \<and> B ! Suc j = CHR '' ''")
        case True
        have ih: "sub_headers False (drop (Suc (Suc j)) B) =
            concat (map (\<lambda>i. (if (if i = Suc (Suc j) then False else B ! (i - 1) = NL) \<and> hdr_at B i
                        then ''##'' else []) @ [B ! i]) [Suc (Suc j)..<length B])"
          using less.hyps [of "Suc (Suc j)" False] sl by simp
        have cg: "map (\<lambda>i. (if (if i = Suc (Suc j) then False else B ! (i - 1) = NL) \<and> hdr_at B i
                        then ''##'' else []) @ [B ! i]) [Suc (Suc j)..<length B]
            = map (\<lambda>i. (if (if i = j then f else B ! (i - 1) = NL) \<and> hdr_at B i
                        then ''##'' else []) @ [B ! i]) [Suc (Suc j)..<length B]"
          using True by (intro map_cong) (auto simp: NL_def)
        have h0: "hdr_at B j" using True sl by (simp add: hdr_at_def)
        have h1: "\<not> hdr_at B (Suc j)" using True by (simp add: hdr_at_def)
        show ?thesis
          unfolding d1 d2 u1 u2 using True h0 h1 ih cg by simp
      next
        case False
        have ih: "sub_headers (B ! j = NL) (drop (Suc j) B) =
            concat (map (\<lambda>i. (if (if i = Suc j then B ! j = NL else B ! (i - 1) = NL) \<and> hdr_at B i
                        then ''##'' else []) @ [B ! i]) [Suc j..<length B])"
          using less.hyps [of "Suc j" "B ! j = NL"] jl by simp
        have cg: "map (\<lambda>i. (if (if i = Suc j then B ! j = NL else B ! (i - 1) = NL) \<and> hdr_at B i
                        then ''##'' else []) @ [B ! i]) [Suc j..<length B]
            = map (\<lambda>i. (if (if i = j then f else B ! (i - 1) = NL) \<and> hdr_at B i
                        then ''##'' else []) @ [B ! i]) [Suc j..<length B]"
          by (intro map_cong) auto
        have h0: "\<not> (f \<and> hdr_at B j)" using False sl by (auto simp: hdr_at_def)
        have "sub_headers f (drop j B) = B ! j # sub_headers (B ! j = NL) (drop (Suc j) B)"
          unfolding d1 d2 using False by auto
        then show ?thesis
          unfolding u1 using h0 ih cg by simp
      qed
    qed
  qed
qed


lemma map_nth_slice: "b \<le> length T \<Longrightarrow> map ((!) T) [a..<b] = slice T a b"
  by (rule nth_equalityI) (auto simp: slice_def)

lemma take2_hdr_iff:
  "take 2 (drop k T) = ''# '' \<longleftrightarrow> Suc k < length T \<and> T ! k = CHR ''#'' \<and> T ! Suc k = CHR '' ''"
proof (cases "Suc k < length T")
  case True
  then have "drop k T = T ! k # T ! Suc k # drop (Suc (Suc k)) T"
    by (metis Cons_nth_drop_Suc Suc_lessD)
  then show ?thesis using True by (simp add: numeral_2_eq_2)
next
  case False
  have "take 2 (drop k T) \<noteq> ''# ''"
  proof
    assume e: "take 2 (drop k T) = ''# ''"
    have "length (take 2 (drop k T)) = length ''# ''" by (simp only: e)
    with False show False by simp
  qed
  with False show ?thesis by simp
qed

lemma upt_split: "a \<le> b \<Longrightarrow> b \<le> c \<Longrightarrow> [a..<c] = [a..<b] @ [b..<c]"
  by (metis le_Suc_ex upt_add_eq_append)

lemma block_index:
  assumes "a < b" and "b \<le> length T"
    and "T ! a \<noteq> CHR ''#''" and "T ! (b - 1) \<noteq> CHR ''#''"
  shows "replace_headers_in_block (slice T a b) =
     concat (map (\<lambda>k. (if a < k \<and> at_bol T k \<and> take 2 (drop k T) = ''# ''
                        then ''##'' else []) @ [T ! k]) [a..<b])"
proof -
  define B where "B = take b T"
  have lB: "length B = b" using assms(2) by (simp add: B_def)
  have sl: "slice T a b = drop a B" by (simp add: slice_def B_def drop_take)
  have nB: "\<And>i. i < b \<Longrightarrow> B ! i = T ! i" by (simp add: B_def)
  have "replace_headers_in_block (slice T a b) =
      concat (map (\<lambda>i. (if (if i = a then True else B ! (i - 1) = NL) \<and> hdr_at B i
                        then ''##'' else []) @ [B ! i]) [a..<length B])"
    unfolding replace_headers_in_block_def sl
    using assms(1) lB by (intro sub_headers_index) simp
  also have "\<dots> = concat (map (\<lambda>k. (if a < k \<and> at_bol T k \<and> take 2 (drop k T) = ''# ''
                        then ''##'' else []) @ [T ! k]) [a..<b])"
  proof -
    have "\<And>i. a \<le> i \<Longrightarrow> i < b \<Longrightarrow>
        ((if i = a then True else B ! (i - 1) = NL) \<and> hdr_at B i)
        = (a < i \<and> at_bol T i \<and> take 2 (drop i T) = ''# '')"
    proof -
      fix i assume i: "a \<le> i" "i < b"
      show "((if i = a then True else B ! (i - 1) = NL) \<and> hdr_at B i)
        = (a < i \<and> at_bol T i \<and> take 2 (drop i T) = ''# '')"
      proof (cases "i = a")
        case True
        then show ?thesis using assms(3) nB [of a] i by (simp add: hdr_at_def)
      next
        case False
        with i have ai: "a < i" by simp
        then have b1: "(B ! (i - 1) = NL) = at_bol T i"
          using nB [of "i - 1"] i by (simp add: at_bol_def)
        have b2: "hdr_at B i = (take 2 (drop i T) = ''# '')"
        proof (cases "Suc i < b")
          case True
          then show ?thesis
            using nB [of i] nB [of "Suc i"] i lB assms(2) by (auto simp: hdr_at_def take2_hdr_iff)
        next
          case False
          with i have "i = b - 1" by simp
          then show ?thesis
            using assms(4) nB [of i] i lB by (auto simp: hdr_at_def take2_hdr_iff)
        qed
        from False ai b1 b2 show ?thesis by simp
      qed
    qed
    then have "map (\<lambda>i. (if (if i = a then True else B ! (i - 1) = NL) \<and> hdr_at B i
                        then ''##'' else []) @ [B ! i]) [a..<length B]
        = map (\<lambda>k. (if a < k \<and> at_bol T k \<and> take 2 (drop k T) = ''# ''
                        then ''##'' else []) @ [T ! k]) [a..<b]"
      unfolding lB by (intro map_cong) (simp_all add: nB)
    then show ?thesis by simp
  qed
  finally show ?thesis .
qed

lemma resub_index:
  assumes "chain (length T) pos ms"
    and "\<forall>m \<in> set ms. T ! m_start m \<noteq> CHR ''#'' \<and> T ! (m_end m - 1) \<noteq> CHR ''#''"
  shows "resub replace_headers_in_block T pos ms =
     concat (map (\<lambda>k. (if (\<exists>m \<in> set ms. m_start m < k \<and> k < m_end m) \<and> at_bol T k \<and>
                           take 2 (drop k T) = ''# '' then ''##'' else []) @ [T ! k])
                 [pos..<length T])"
  using assms
proof (induction ms arbitrary: pos)
  case Nil
  have "concat (map (\<lambda>k. [T ! k]) [pos..<length T]) = map ((!) T) [pos..<length T]"
    by (induction "[pos..<length T]") (simp_all add: concat_map_singleton)
  then show ?case by (simp add: map_nth_slice slice_def)
next
  case (Cons m ms)
  let ?a = "m_start m" and ?b = "m_end m"
  let ?g = "\<lambda>S k. (if (\<exists>m \<in> set S. m_start m < k \<and> k < m_end m) \<and> at_bol T k \<and>
                           take 2 (drop k T) = ''# '' then ''##'' else []) @ [T ! k]"
  from Cons.prems have c: "pos \<le> ?a" "?a < ?b" "?b \<le> length T" "chain (length T) ?b ms"
    by simp_all
  have later: "\<And>m'. m' \<in> set ms \<Longrightarrow> ?b \<le> m_start m'"
    using chain_lower [OF c(4)] by blast
  have ih: "resub replace_headers_in_block T ?b ms = concat (map (?g ms) [?b..<length T])"
    using Cons.IH [OF c(4)] Cons.prems(2) by simp
  have split: "[pos..<length T] = [pos..<?a] @ [?a..<?b] @ [?b..<length T]"
    using c upt_split [of pos ?a "length T"] upt_split [of ?a ?b "length T"] by simp
  have gap: "map (?g (m # ms)) [pos..<?a] = map (\<lambda>k. [T ! k]) [pos..<?a]"
  proof (intro map_cong refl)
    fix k assume "k \<in> set [pos..<?a]"
    then have k: "k < ?a" by simp
    have "\<not> (\<exists>m' \<in> set (m # ms). m_start m' < k \<and> k < m_end m')"
      using k c(2) later by fastforce
    then show "?g (m # ms) k = [T ! k]" by simp
  qed
  have gapc: "concat (map (?g (m # ms)) [pos..<?a]) = slice T pos ?a"
  proof -
    have "concat (map (?g (m # ms)) [pos..<?a]) = concat (map (\<lambda>k. [T ! k]) [pos..<?a])"
      by (simp only: gap)
    also have "\<dots> = map ((!) T) [pos..<?a]"
      by (simp add: concat_map_singleton)
    also have "\<dots> = slice T pos ?a"
      using c by (intro map_nth_slice) simp
    finally show ?thesis .
  qed
  have blk: "map (?g (m # ms)) [?a..<?b] =
      map (\<lambda>k. (if ?a < k \<and> at_bol T k \<and> take 2 (drop k T) = ''# ''
                        then ''##'' else []) @ [T ! k]) [?a..<?b]"
  proof (intro map_cong refl)
    fix k assume "k \<in> set [?a..<?b]"
    then have k: "?a \<le> k" "k < ?b" by simp_all
    have "(\<exists>m' \<in> set (m # ms). m_start m' < k \<and> k < m_end m') = (?a < k)"
      using k later by fastforce
    then show "?g (m # ms) k = (if ?a < k \<and> at_bol T k \<and> take 2 (drop k T) = ''# ''
                        then ''##'' else []) @ [T ! k]" by simp
  qed
  have blkc: "concat (map (?g (m # ms)) [?a..<?b]) = replace_headers_in_block (slice T ?a ?b)"
    unfolding blk using Cons.prems(2) c by (intro block_index [symmetric]) simp_all
  have rest: "map (?g (m # ms)) [?b..<length T] = map (?g ms) [?b..<length T]"
  proof (intro map_cong refl)
    fix k assume "k \<in> set [?b..<length T]"
    then have k: "?b \<le> k" by simp
    have "(\<exists>m' \<in> set (m # ms). m_start m' < k \<and> k < m_end m')
        = (\<exists>m' \<in> set ms. m_start m' < k \<and> k < m_end m')"
      using k by auto
    then show "?g (m # ms) k = ?g ms k" by simp
  qed
  show ?case
    unfolding split map_append concat_append gapc blkc rest
    by (simp add: ih)
qed


lemma find_fence_Some:
  "find_fence s = Some q \<Longrightarrow> take 3 (drop q s) = fence \<and> q + 3 \<le> length s"
proof (induction s arbitrary: q)
  case Nil
  then show ?case by simp
next
  case (Cons c cs)
  show ?case
  proof (cases "take 3 (c # cs) = fence")
    case True
    with Cons.prems have q: "q = 0" by simp
    have "length (take 3 (c # cs)) = length fence" by (simp only: True)
    then have "3 \<le> length (c # cs)" by (simp add: fence_def)
    with True q show ?thesis by simp
  next
    case False
    with Cons.prems obtain q' where q': "find_fence cs = Some q'" "q = Suc q'" by auto
    from Cons.IH [OF q'(1)] q'(2) show ?thesis by simp
  qed
qed

lemma take3_nth:
  assumes "take 3 xs = fence"
  shows "xs ! 0 = CHR 0x60 \<and> xs ! 2 = CHR 0x60 \<and> 3 \<le> length xs"
proof -
  have "length (take 3 xs) = length fence" by (simp only: assms)
  then have l: "3 \<le> length xs" by (simp add: fence_def)
  have "take 3 xs ! 0 = fence ! 0" "take 3 xs ! 2 = fence ! 2" by (simp_all only: assms)
  with l show ?thesis by (simp add: fence_def)
qed

lemma fence_match_props:
  assumes "match_fence_at T p = Some m"
  shows "m_start m = p \<and> p + 6 \<le> m_end m \<and> m_end m \<le> length T \<and>
         T ! m_start m = CHR 0x60 \<and> T ! (m_end m - 1) = CHR 0x60"
proof -
  from assms obtain q where t: "take 3 (drop p T) = fence"
    and q: "find_fence (drop (p + 3) T) = Some q"
    and m: "m = \<lparr>m_start = p, m_end = p + 3 + q + 3, m_group1 = [], m_group2 = []\<rparr>"
    by (auto simp: match_fence_at_def split: if_splits option.splits)
  from find_fence_Some [OF q] have c: "take 3 (drop q (drop (p + 3) T)) = fence"
    and l: "q + 3 \<le> length (drop (p + 3) T)" by simp_all
  from l have le: "p + 3 + q + 3 \<le> length T" by simp
  from take3_nth [OF t] le have o: "T ! p = CHR 0x60" by simp
  from take3_nth [OF c] have "drop q (drop (p + 3) T) ! 2 = CHR 0x60" by simp
  moreover have "drop q (drop (p + 3) T) ! 2 = T ! (p + 3 + q + 2)"
    using le by (simp add: add.commute add.left_commute)
  ultimately have e: "T ! (p + 3 + q + 3 - 1) = CHR 0x60" by simp
  from m le o e show ?thesis by simp
qed

lemma wf_matcher_fence: "wf_matcher match_fence_at T"
  unfolding wf_matcher_def using fence_match_props by fastforce

lemma finditer_sound:
  "m \<in> set (finditer mt T p) \<Longrightarrow> \<exists>q. p \<le> q \<and> mt T q = Some m"
proof (induction mt T p rule: finditer.induct)
  case (1 mt T p)
  show ?case
  proof (cases "length T < p")
    case True
    with 1(3) show ?thesis by (subst (asm) finditer.simps) simp
  next
    case False
    show ?thesis
    proof (cases "mt T p")
      case None
      with False 1(3) have "m \<in> set (finditer mt T (Suc p))"
        by (subst (asm) finditer.simps) simp
      from 1(1) [OF False None this] show ?thesis by (auto dest: Suc_leD)
    next
      case (Some a)
      with False 1(3) have "m = a \<or> m \<in> set (finditer mt T (max (Suc p) (m_end a)))"
        by (subst (asm) finditer.simps) auto
      then show ?thesis
      proof
        assume "m = a"
        with Some show ?thesis by auto
      next
        assume "m \<in> set (finditer mt T (max (Suc p) (m_end a)))"
        from 1(2) [OF False Some this] obtain q where "max (Suc p) (m_end a) \<le> q" "mt T q = Some m"
          by blast
        then show ?thesis by (auto intro!: exI [of _ q])
      qed
    qed
  qed
qed

lemma neutralize_index:
  "neutralize_code_block_headers T = concat (map (demoted T) [0..<length T])"
proof -
  let ?ms = "finditer match_fence_at T 0"
  have c: "chain (length T) 0 ?ms" by (rule finditer_chain [OF wf_matcher_fence])
  have f: "\<forall>m \<in> set ?ms. T ! m_start m \<noteq> CHR ''#'' \<and> T ! (m_end m - 1) \<noteq> CHR ''#''"
  proof
    fix m assume "m \<in> set ?ms"
    from finditer_sound [OF this] obtain q where "match_fence_at T q = Some m" by blast
    from fence_match_props [OF this]
    have "T ! m_start m = CHR 0x60" "T ! (m_end m - 1) = CHR 0x60" by blast+
    then show "T ! m_start m \<noteq> CHR ''#'' \<and> T ! (m_end m - 1) \<noteq> CHR ''#''" by simp
  qed
  have "map (\<lambda>k. (if (\<exists>m \<in> set ?ms. m_start m < k \<and> k < m_end m) \<and> at_bol T k \<and>
                           take 2 (drop k T) = ''# '' then ''##'' else []) @ [T ! k])
                 [0..<length T] = map (demoted T) [0..<length T]"
    by (intro map_cong refl) (simp add: demoted_def marked_def in_block_def list_ex_iff)
  with resub_index [OF c f] show ?thesis
    by (simp add: neutralize_code_block_headers_def)
qed

lemma length_concat_demoted:
  "a \<le> b \<Longrightarrow>
   length (concat (map (demoted T) [a..<b])) + a = b + 2 * length (filter (marked T) [a..<b])"
proof (induction b)
  case 0
  then show ?case by simp
next
  case (Suc b)
  show ?case
  proof (cases "a \<le> b")
    case True
    with Suc.IH show ?thesis by (simp add: demoted_def)
  next
    case False
    with Suc.prems have "a = Suc b" by simp
    then show ?thesis by simp
  qed
qed

lemma NL_concat_demoted:
  "b \<le> length T \<Longrightarrow>
   filter (\<lambda>c. c = NL) (concat (map (demoted T) [a..<b])) = filter (\<lambda>c. c = NL) (slice T a b)"
proof (induction b)
  case 0
  then show ?case by (simp add: slice_def)
next
  case (Suc b)
  show ?case
  proof (cases "a \<le> b")
    case True
    from Suc.prems have bl: "b < length T" by simp
    have "slice T a (Suc b) = slice T a b @ [T ! b]"
      using True bl by (simp add: slice_def Suc_diff_le take_Suc_conv_app_nth)
    with Suc True bl show ?thesis by (simp add: demoted_def NL_def)
  next
    case False
    then show ?thesis by (simp add: slice_def)
  qed
qed

text \<open>
  C4, as stated, fails: the rewrite does not keep the length of the text. A block with one
  comment line grows by two characters.
\<close>

theorem neutralize_length_counterexample:
  "length (neutralize_code_block_headers (fence @ [NL] @ ''# x'' @ [NL] @ fence)) \<noteq> length (fence @ [NL] @ ''# x'' @ [NL] @ fence)"
  by code_simp

text \<open>
  C4, amended. The rewritten text is the input with \<open>##\<close> put in front of every
  position where a line starts, strictly inside a fenced code block, with \<open>#\<close> and a
  space (so that the line begins with \<open>###\<close> and a space); every character of the
  input is kept, in order, and nothing else is added. The number of lines is the same,
  and the length grows by two for each rewritten line.
\<close>

theorem neutralize_rewrites:
  "neutralize_code_block_headers T = concat (map (demoted T) [0..<length T]) \<and>
   line_count (neutralize_code_block_headers T) = line_count T \<and>
   length (neutralize_code_block_headers T)
     = length T + 2 * length (filter (marked T) [0..<length T])"
  using neutralize_index [of T] length_concat_demoted [of 0 "length T" T]
    NL_concat_demoted [of "length T" T 0]
  by (simp add: line_count_def slice_def)

theorem neutralize_rewrites_witness:
  "neutralize_code_block_headers (fence @ [NL] @ ''# x'' @ [NL] @ fence) = fence @ [NL] @ ''### x'' @ [NL] @ fence \<and>
   line_count (neutralize_code_block_headers (fence @ [NL] @ ''# x'' @ [NL] @ fence)) = line_count (fence @ [NL] @ ''# x'' @ [NL] @ fence) \<and>
   length (neutralize_code_block_headers (fence @ [NL] @ ''# x'' @ [NL] @ fence)) = length (fence @ [NL] @ ''# x'' @ [NL] @ fence) + 2"
proof -
  have a: "concat (map (demoted (fence @ [NL] @ ''# x'' @ [NL] @ fence)) [0..<length (fence @ [NL] @ ''# x'' @ [NL] @ fence)]) = fence @ [NL] @ ''### x'' @ [NL] @ fence"
    by code_simp
  have b: "length (filter (marked (fence @ [NL] @ ''# x'' @ [NL] @ fence)) [0..<length (fence @ [NL] @ ''# x'' @ [NL] @ fence)]) = 1"
    by code_simp
  note n = neutralize_rewrites [of "(fence @ [NL] @ ''# x'' @ [NL] @ fence)"]
  from n have c1: "neutralize_code_block_headers (fence @ [NL] @ ''# x'' @ [NL] @ fence)
      = concat (map (demoted (fence @ [NL] @ ''# x'' @ [NL] @ fence))
          [0..<length (fence @ [NL] @ ''# x'' @ [NL] @ fence)])"
    by (rule conjunct1)
  from n have c2: "line_count (neutralize_code_block_headers (fence @ [NL] @ ''# x'' @ [NL] @ fence))
      = line_count (fence @ [NL] @ ''# x'' @ [NL] @ fence)"
    by blast
  from n have c3: "length (neutralize_code_block_headers (fence @ [NL] @ ''# x'' @ [NL] @ fence))
      = length (fence @ [NL] @ ''# x'' @ [NL] @ fence)
        + 2 * length (filter (marked (fence @ [NL] @ ''# x'' @ [NL] @ fence))
            [0..<length (fence @ [NL] @ ''# x'' @ [NL] @ fence)])"
    by blast
  from c1 a have r1: "neutralize_code_block_headers (fence @ [NL] @ ''# x'' @ [NL] @ fence)
      = fence @ [NL] @ ''### x'' @ [NL] @ fence"
    by (rule trans)
  have r3: "length (neutralize_code_block_headers (fence @ [NL] @ ''# x'' @ [NL] @ fence))
      = length (fence @ [NL] @ ''# x'' @ [NL] @ fence) + 2"
    by (simp only: c3 b mult_1_right)
  from r1 c2 r3 show ?thesis by (intro conjI)
qed

subsection \<open>Header lines inside code blocks\<close>

lemma new_pos_length: "new_pos T k = length (concat (map (demoted T) [0..<k]))"
  using length_concat_demoted [of 0 k T] by (simp add: new_pos_def)

lemma drop_new_pos:
  assumes "k \<le> length T"
  shows "drop (new_pos T k) (neutralize_code_block_headers T)
     = concat (map (demoted T) [k..<length T])"
proof -
  have "[0..<length T] = [0..<k] @ [k..<length T]"
    using assms upt_split [of 0 k "length T"] by simp
  then have "neutralize_code_block_headers T
      = concat (map (demoted T) [0..<k]) @ concat (map (demoted T) [k..<length T])"
    by (simp add: neutralize_index)
  then show ?thesis by (simp add: new_pos_length)
qed

lemma take_new_pos:
  assumes "k \<le> length T"
  shows "take (new_pos T k) (neutralize_code_block_headers T)
     = concat (map (demoted T) [0..<k])"
proof -
  have "[0..<length T] = [0..<k] @ [k..<length T]"
    using assms upt_split [of 0 k "length T"] by simp
  then have "neutralize_code_block_headers T
      = concat (map (demoted T) [0..<k]) @ concat (map (demoted T) [k..<length T])"
    by (simp add: neutralize_index)
  then show ?thesis by (simp add: new_pos_length)
qed

lemma concat_demoted_step:
  "k < n \<Longrightarrow> concat (map (demoted T) [k..<n])
     = demoted T k @ concat (map (demoted T) [Suc k..<n])"
  by (simp add: upt_conv_Cons)

lemma marked_bol: "marked T k \<Longrightarrow> at_bol T k"
  by (simp add: marked_def)

lemma block_hash_no_match:
  assumes "k < length T" and "T ! k = CHR ''#''" and "in_block T k" and "at_bol T k"
  shows "match_header_at (neutralize_code_block_headers T) (new_pos T k) = None"
proof -
  let ?N = "neutralize_code_block_headers T"
  have d: "drop (new_pos T k) ?N = demoted T k @ concat (map (demoted T) [Suc k..<length T])"
    using drop_new_pos [of k T] concat_demoted_step [OF assms(1)] assms(1) by simp
  have "take 2 (drop (new_pos T k) ?N) \<noteq> ''# ''"
  proof (cases "marked T k")
    case True
    then show ?thesis unfolding d by (simp add: demoted_def)
  next
    case False
    with assms have nh: "take 2 (drop k T) \<noteq> ''# ''" by (simp add: marked_def)
    show ?thesis
    proof (cases "Suc k < length T")
      case True
      have "\<not> at_bol T (Suc k)" using assms(2) by (simp add: at_bol_def NL_def)
      then have nm: "\<not> marked T (Suc k)" by (auto dest: marked_bol)
      have "concat (map (demoted T) [Suc k..<length T])
          = demoted T (Suc k) @ concat (map (demoted T) [Suc (Suc k)..<length T])"
        by (rule concat_demoted_step [OF True])
      with d False nm have "take 2 (drop (new_pos T k) ?N) = [T ! k, T ! Suc k]"
        by (simp add: demoted_def)
      with nh True assms(2) show ?thesis by (simp add: take2_hdr_iff)
    next
      case False
      with assms(1) have "[Suc k..<length T] = []" by simp
      with d \<open>\<not> marked T k\<close> have "drop (new_pos T k) ?N = [T ! k]" by (simp add: demoted_def)
      then show ?thesis by simp
    qed
  qed
  then show ?thesis by (simp add: match_header_at_def Let_def)
qed

lemma boundary_is_match:
  assumes "m \<in> set (boundaries True T)"
  shows "match_header_at (neutralize_code_block_headers T) (m_start m) = Some m"
proof -
  from assms have "m \<in> set (finditer match_header_at (neutralize_code_block_headers T) 0)"
    by (simp add: boundaries_def)
  from finditer_sound [OF this] obtain q where
    q: "match_header_at (neutralize_code_block_headers T) q = Some m" by blast
  with wf_matcher_header [of "neutralize_code_block_headers T"] have "m_start m = q"
    by (auto simp: wf_matcher_def)
  with q show ?thesis by simp
qed

lemma nl_from_append: "nl_from off (A @ B) = nl_from off A @ nl_from (off + length A) B"
  by (induction A arbitrary: off) simp_all

lemma nl_from_demoted:
  "nl_from off (demoted T k) = (if T ! k = NL then [off + length (demoted T k)] else [])"
  by (simp add: demoted_def NL_def)

lemma nl_from_concat_demoted:
  "b \<le> length T \<Longrightarrow>
   nl_from 0 (concat (map (demoted T) [0..<b])) = map (new_pos T) (nl_from 0 (take b T))"
proof (induction b)
  case 0
  then show ?case by simp
next
  case (Suc b)
  then have bl: "b < length T" by simp
  have t: "take (Suc b) T = take b T @ [T ! b]" using bl by (simp add: take_Suc_conv_app_nth)
  have lt: "length (take b T) = b" using bl by simp
  have np: "new_pos T (Suc b) = new_pos T b + length (demoted T b)"
    by (simp add: new_pos_length)
  have "nl_from 0 (concat (map (demoted T) [0..<Suc b]))
      = nl_from 0 (concat (map (demoted T) [0..<b])) @ nl_from (new_pos T b) (demoted T b)"
    by (simp add: nl_from_append new_pos_length)
  also have "\<dots> = map (new_pos T) (nl_from 0 (take b T))
      @ (if T ! b = NL then [new_pos T (Suc b)] else [])"
    using Suc.IH bl by (simp add: nl_from_demoted np)
  also have "\<dots> = map (new_pos T) (nl_from 0 (take (Suc b) T))"
    unfolding t using bl by (simp add: nl_from_append min_def)
  finally show ?case .
qed

lemma line_starts_neutralize:
  "line_starts (neutralize_code_block_headers T) = map (new_pos T) (line_starts T)"
  using nl_from_concat_demoted [of "length T" T]
  by (simp add: line_starts_def neutralize_index new_pos_def)

lemma nl_from_bol:
  "x \<in> set (nl_from off s) \<Longrightarrow> \<exists>i < length s. x = Suc (off + i) \<and> s ! i = NL"
proof (induction s arbitrary: off)
  case Nil
  then show ?case by simp
next
  case (Cons c cs)
  from Cons.prems consider "c = NL" "x = Suc off" | "x \<in> set (nl_from (Suc off) cs)"
    by (auto split: if_splits)
  then show ?case
  proof cases
    case 1
    then show ?thesis by (intro exI [of _ 0]) simp
  next
    case 2
    from Cons.IH [OF this] obtain i where "i < length cs" "x = Suc (Suc off + i)" "cs ! i = NL"
      by blast
    then show ?thesis by (intro exI [of _ "Suc i"]) simp
  qed
qed

lemma line_starts_bol: "k \<in> set (line_starts T) \<Longrightarrow> at_bol T k \<and> k \<le> length T"
proof -
  assume "k \<in> set (line_starts T)"
  then consider "k = 0" | "k \<in> set (nl_from 0 T)" by (auto simp: line_starts_def)
  then show ?thesis
  proof cases
    case 1
    then show ?thesis by (simp add: at_bol_def)
  next
    case 2
    from nl_from_bol [OF this] show ?thesis by (auto simp: at_bol_def)
  qed
qed

text \<open>
  C2. A fenced code block is a match of the block pattern: an opening fence up to the
  next closing fence. The rewrite keeps the number of lines, so line \<open>i\<close> of the input is
  line \<open>i\<close> of the searched text. Whenever line \<open>i\<close> of the input starts inside a fenced
  code block with \<open>#\<close>, no boundary of strategy B starts at line \<open>i\<close>, so no page takes
  its title from that line. An input with well-formed fences is one where every
  fence-opened region is such a block; the statement holds for the blocks of any input.
\<close>

theorem code_block_header_no_boundary:
  assumes "i < length (line_starts T)"
    and "in_block T (line_starts T ! i)"
    and "line_starts T ! i < length T"
    and "T ! (line_starts T ! i) = CHR ''#''"
  shows "length (line_starts (neutralize_code_block_headers T)) = length (line_starts T) \<and>
         line_starts (neutralize_code_block_headers T) ! i
           \<notin> set (map m_start (boundaries True T))"
proof -
  let ?k = "line_starts T ! i"
  have l: "length (line_starts (neutralize_code_block_headers T)) = length (line_starts T)"
    by (simp add: line_starts_neutralize)
  have p: "line_starts (neutralize_code_block_headers T) ! i = new_pos T ?k"
    using assms(1) by (simp add: line_starts_neutralize)
  have "?k \<in> set (line_starts T)" using assms(1) by simp
  then have b: "at_bol T ?k" by (simp add: line_starts_bol)
  have n: "match_header_at (neutralize_code_block_headers T) (new_pos T ?k) = None"
    by (rule block_hash_no_match [OF assms(3) assms(4) assms(2) b])
  have "new_pos T ?k \<notin> set (map m_start (boundaries True T))"
  proof
    assume "new_pos T ?k \<in> set (map m_start (boundaries True T))"
    then obtain m where "m \<in> set (boundaries True T)" "m_start m = new_pos T ?k" by auto
    with boundary_is_match [of m T] n show False by simp
  qed
  with l p show ?thesis by simp
qed

theorem code_block_header_no_boundary_witness:
  "1 < length (line_starts (fence @ [NL] @ ''# not a header'' @ [NL] @ fence @ [NL] @ ''# Real Header'' @ [NL] @ ''text'')) \<and>
   in_block (fence @ [NL] @ ''# not a header'' @ [NL] @ fence @ [NL] @ ''# Real Header'' @ [NL] @ ''text'') (line_starts (fence @ [NL] @ ''# not a header'' @ [NL] @ fence @ [NL] @ ''# Real Header'' @ [NL] @ ''text'') ! 1) \<and>
   line_starts (fence @ [NL] @ ''# not a header'' @ [NL] @ fence @ [NL] @ ''# Real Header'' @ [NL] @ ''text'') ! 1 < length (fence @ [NL] @ ''# not a header'' @ [NL] @ fence @ [NL] @ ''# Real Header'' @ [NL] @ ''text'') \<and>
   (fence @ [NL] @ ''# not a header'' @ [NL] @ fence @ [NL] @ ''# Real Header'' @ [NL] @ ''text'') ! (line_starts (fence @ [NL] @ ''# not a header'' @ [NL] @ fence @ [NL] @ ''# Real Header'' @ [NL] @ ''text'') ! 1) = CHR ''#'' \<and>
   line_starts (neutralize_code_block_headers (fence @ [NL] @ ''# not a header'' @ [NL] @ fence @ [NL] @ ''# Real Header'' @ [NL] @ ''text'')) ! 1
     \<notin> set (map m_start (boundaries True (fence @ [NL] @ ''# not a header'' @ [NL] @ fence @ [NL] @ ''# Real Header'' @ [NL] @ ''text''))) \<and>
   map title (split_with_header_pattern (fence @ [NL] @ ''# not a header'' @ [NL] @ fence @ [NL] @ ''# Real Header'' @ [NL] @ ''text'')) = [''Real Header'']"
proof -
  have a: "1 < length (line_starts (fence @ [NL] @ ''# not a header'' @ [NL] @ fence @ [NL] @ ''# Real Header'' @ [NL] @ ''text''))"
    by code_simp
  have b: "in_block (fence @ [NL] @ ''# not a header'' @ [NL] @ fence @ [NL] @ ''# Real Header'' @ [NL] @ ''text'') (line_starts (fence @ [NL] @ ''# not a header'' @ [NL] @ fence @ [NL] @ ''# Real Header'' @ [NL] @ ''text'') ! 1)"
    by code_simp
  have c: "line_starts (fence @ [NL] @ ''# not a header'' @ [NL] @ fence @ [NL] @ ''# Real Header'' @ [NL] @ ''text'') ! 1 < length (fence @ [NL] @ ''# not a header'' @ [NL] @ fence @ [NL] @ ''# Real Header'' @ [NL] @ ''text'')"
    by code_simp
  have d: "(fence @ [NL] @ ''# not a header'' @ [NL] @ fence @ [NL] @ ''# Real Header'' @ [NL] @ ''text'') ! (line_starts (fence @ [NL] @ ''# not a header'' @ [NL] @ fence @ [NL] @ ''# Real Header'' @ [NL] @ ''text'') ! 1) = CHR ''#''"
    by code_simp
  have e: "map title (split_with_header_pattern (fence @ [NL] @ ''# not a header'' @ [NL] @ fence @ [NL] @ ''# Real Header'' @ [NL] @ ''text'')) = [''Real Header'']"
    by code_simp
  from code_block_header_no_boundary [OF a b c d]
  have "line_starts (neutralize_code_block_headers (fence @ [NL] @ ''# not a header'' @ [NL] @ fence @ [NL] @ ''# Real Header'' @ [NL] @ ''text'')) ! 1
     \<notin> set (map m_start (boundaries True (fence @ [NL] @ ''# not a header'' @ [NL] @ fence @ [NL] @ ''# Real Header'' @ [NL] @ ''text'')))"
    by (rule conjunct2)
  with a b c d e show ?thesis by (intro conjI)
qed

subsection \<open>Cutting off the text before the first boundary\<close>

lemma finditer_beyond: "length T < p \<Longrightarrow> finditer mt T p = []"
  by (subst finditer.simps) simp

lemma finditer_skip:
  "\<forall>q. p \<le> q \<and> q < k \<longrightarrow> mt T q = None \<Longrightarrow> p \<le> k \<Longrightarrow>
   finditer mt T p = finditer mt T k"
proof (induction "k - p" arbitrary: p)
  case 0
  then show ?case by simp
next
  case (Suc d)
  then have pk: "p < k" by simp
  with Suc.prems have n: "mt T p = None" by simp
  have ih: "finditer mt T (Suc p) = finditer mt T k"
    using Suc.hyps Suc.prems pk by (intro Suc.hyps(1)) auto
  show ?case
  proof (cases "length T < p")
    case True
    with pk have "length T < k" by simp
    with True show ?thesis by (simp add: finditer_beyond)
  next
    case False
    with n ih show ?thesis by (subst finditer.simps) simp
  qed
qed

lemma finditer_first:
  assumes "wf_matcher mt T" and "finditer mt T p = m # rest"
  shows "p \<le> m_start m \<and> (\<forall>q. p \<le> q \<and> q < m_start m \<longrightarrow> mt T q = None) \<and>
         mt T (m_start m) = Some m"
  using assms
proof (induction mt T p rule: finditer.induct)
  case (1 mt T p)
  show ?case
  proof (cases "length T < p")
    case True
    with 1(4) show ?thesis by (subst (asm) finditer.simps) simp
  next
    case False
    show ?thesis
    proof (cases "mt T p")
      case None
      with False 1(4) have "finditer mt T (Suc p) = m # rest"
        by (subst (asm) finditer.simps) simp
      from 1(1) [OF False None 1(3) this]
      have ih: "Suc p \<le> m_start m" "\<forall>q. Suc p \<le> q \<and> q < m_start m \<longrightarrow> mt T q = None"
        "mt T (m_start m) = Some m" by simp_all
      have "\<forall>q. p \<le> q \<and> q < m_start m \<longrightarrow> mt T q = None"
      proof (intro allI impI)
        fix q assume q: "p \<le> q \<and> q < m_start m"
        show "mt T q = None"
        proof (cases "q = p")
          case True
          with None show ?thesis by simp
        next
          case False
          with q ih(2) show ?thesis by simp
        qed
      qed
      with ih show ?thesis by simp
    next
      case (Some a)
      with False 1(4) have "a = m"
        by (subst (asm) finditer.simps) simp
      with Some 1(3) have "m_start m = p" by (auto simp: wf_matcher_def)
      with Some \<open>a = m\<close> show ?thesis by auto
    qed
  qed
qed

lemma finditer_shift:
  assumes "shift_invariant mt T s" and "wf_matcher mt T" and "s \<le> length T"
  shows "finditer mt (drop s T) q = map (shift_match s) (finditer mt T (s + q))"
proof (induction "Suc (length T) - (s + q)" arbitrary: q rule: less_induct)
  case less
  show ?case
  proof (cases "length (drop s T) < q")
    case True
    then have "length T < s + q" using assms(3) by simp
    with True show ?thesis by (simp add: finditer_beyond)
  next
    case False
    then have f2: "\<not> length T < s + q" using assms(3) by simp
    have sh: "mt (drop s T) q = map_option (shift_match s) (mt T (s + q))"
      using assms(1) by (simp add: shift_invariant_def)
    show ?thesis
    proof (cases "mt T (s + q)")
      case None
      have "finditer mt (drop s T) (Suc q) = map (shift_match s) (finditer mt T (s + Suc q))"
        using f2 by (intro less.hyps) simp
      with None sh False f2 show ?thesis
        by (subst finditer.simps, subst (2) finditer.simps) simp
    next
      case (Some m)
      with assms(2) have w: "m_start m = s + q" "s + q < m_end m" "m_end m \<le> length T"
        by (auto simp: wf_matcher_def)
      have e: "m_end (shift_match s m) = m_end m - s" by (simp add: shift_match_def)
      have mx1: "max (Suc q) (m_end m - s) = m_end m - s" using w by simp
      have mx2: "max (Suc (s + q)) (m_end m) = m_end m" using w by simp
      have "finditer mt (drop s T) (m_end m - s)
          = map (shift_match s) (finditer mt T (s + (m_end m - s)))"
        using w by (intro less.hyps) simp
      then have ih: "finditer mt (drop s T) (m_end m - s)
          = map (shift_match s) (finditer mt T (m_end m))" using w by simp
      have l: "finditer mt (drop s T) q = shift_match s m # finditer mt (drop s T) (m_end m - s)"
        using Some sh False by (subst finditer.simps) (simp add: e mx1)
      have r: "finditer mt T (s + q) = m # finditer mt T (m_end m)"
        using Some f2 by (subst finditer.simps) (simp add: mx2)
      from l r ih show ?thesis by simp
    qed
  qed
qed

lemma slice_shift: "s \<le> a \<Longrightarrow> slice (drop s T) (a - s) (b - s) = slice T a b"
  by (simp add: slice_def)

lemma collect_pages_shift:
  assumes "\<forall>m \<in> set ms. s \<le> m_start m \<and> s \<le> m_end m"
    and "\<And>m. url (shift_match s m) = url m"
  shows "collect_pages url (drop s T) (map (shift_match s) ms) = collect_pages url T ms"
  using assms(1)
proof (induction ms)
  case Nil
  then show ?case by simp
next
  case (Cons m ms)
  then have ih: "collect_pages url (drop s T) (map (shift_match s) ms) = collect_pages url T ms"
    and se: "s \<le> m_end m" by simp_all
  have g: "m_group1 (shift_match s m) = m_group1 m" "m_end (shift_match s m) = m_end m - s"
    by (simp_all add: shift_match_def)
  have c: "slice (drop s T) (m_end m - s)
        (case map (shift_match s) ms of [] \<Rightarrow> length (drop s T) | m' # _ \<Rightarrow> m_start m')
      = slice T (m_end m) (case ms of [] \<Rightarrow> length T | m' # _ \<Rightarrow> m_start m')"
  proof (cases ms)
    case Nil
    then show ?thesis using slice_shift [OF se, of T "length T"] by simp
  next
    case (Cons m' ms')
    then show ?thesis using slice_shift [OF se, of T "m_start m'"]
      by (simp add: shift_match_def)
  qed
  have "collect_pages url (drop s T) (map (shift_match s) (m # ms))
      = \<lparr>title = strip (m_group1 (shift_match s m)), source_url = url (shift_match s m),
          content = strip (slice (drop s T) (m_end (shift_match s m))
            (case map (shift_match s) ms of [] \<Rightarrow> length (drop s T) | m' # _ \<Rightarrow> m_start m')),
          content_length = int (length (strip (slice (drop s T) (m_end (shift_match s m))
            (case map (shift_match s) ms of [] \<Rightarrow> length (drop s T) | m' # _ \<Rightarrow> m_start m'))))\<rparr>
        # collect_pages url (drop s T) (map (shift_match s) ms)"
    by (simp only: list.map collect_pages.simps Let_def)
  also have "\<dots> = \<lparr>title = strip (m_group1 m), source_url = url m,
          content = strip (slice T (m_end m) (case ms of [] \<Rightarrow> length T | m' # _ \<Rightarrow> m_start m')),
          content_length = int (length (strip (slice T (m_end m)
            (case ms of [] \<Rightarrow> length T | m' # _ \<Rightarrow> m_start m'))))\<rparr>
        # collect_pages url T ms"
    by (simp only: g c ih assms(2))
  also have "\<dots> = collect_pages url T (m # ms)"
    by (simp only: collect_pages.simps Let_def)
  finally show ?case .
qed

lemma wf_matcherD:
  "wf_matcher mt T \<Longrightarrow> mt T p = Some m \<Longrightarrow>
   m_start m = p \<and> p < m_end m \<and> m_end m \<le> length T"
  unfolding wf_matcher_def by blast

lemma drop_first_boundary:
  assumes "wf_matcher mt S" and "finditer mt S 0 = m # rest"
    and "shift_invariant mt S (m_start m)"
    and "\<And>x. url (shift_match (m_start m) x) = url x"
  shows "collect_pages url (drop (m_start m) S) (finditer mt (drop (m_start m) S) 0)
       = collect_pages url S (finditer mt S 0)"
proof -
  define s where "s = m_start m"
  from finditer_first [OF assms(1,2)]
  have n: "\<forall>q. 0 \<le> q \<and> q < s \<longrightarrow> mt S q = None" and ms: "mt S s = Some m"
    unfolding s_def by blast+
  from wf_matcherD [OF assms(1) ms] have sl: "s \<le> length S" by linarith
  have e: "finditer mt S 0 = finditer mt S s"
    using finditer_skip [of 0 s mt S] n by simp
  have "finditer mt (drop s S) 0 = map (shift_match s) (finditer mt S (s + 0))"
    by (rule finditer_shift [OF assms(3) [folded s_def] assms(1) sl])
  then have sh: "finditer mt (drop s S) 0 = map (shift_match s) (finditer mt S s)"
    by (simp only: add_0_right)
  have b: "\<forall>x \<in> set (finditer mt S s). s \<le> m_start x \<and> s \<le> m_end x"
  proof
    fix x assume x: "x \<in> set (finditer mt S s)"
    from finditer_sound [OF x] obtain q where q: "s \<le> q" "mt S q = Some x" by blast
    from wf_matcherD [OF assms(1) q(2)] q(1)
    show "s \<le> m_start x \<and> s \<le> m_end x" by linarith
  qed
  have "collect_pages url (drop s S) (map (shift_match s) (finditer mt S s))
      = collect_pages url S (finditer mt S s)"
    using collect_pages_shift [of "finditer mt S s" s url S] b assms(4) [folded s_def]
    by blast
  then show ?thesis
    unfolding s_def [symmetric] by (simp only: sh e)
qed


lemma at_bol_drop:
  "at_bol T s \<Longrightarrow> s \<le> length T \<Longrightarrow> at_bol (drop s T) q = at_bol T (s + q)"
proof (cases q)
  case 0
  assume "at_bol T s" "s \<le> length T"
  with 0 show ?thesis by (simp add: at_bol_def)
next
  case (Suc q')
  assume "at_bol T s" "s \<le> length T"
  with Suc show ?thesis by (simp add: at_bol_def)
qed

lemma drop_drop_add: "drop q (drop s T) = drop (s + q) T"
  by (simp add: add.commute)

lemma shift_invariant_header:
  assumes "at_bol T s" and "s \<le> length T"
  shows "shift_invariant match_header_at T s"
  unfolding shift_invariant_def
proof
  fix q
  show "match_header_at (drop s T) q = map_option (shift_match s) (match_header_at T (s + q))"
    unfolding match_header_at_def Let_def drop_drop_add at_bol_drop [OF assms]
    by (simp add: shift_match_def)
qed

lemma shift_invariant_url:
  assumes "at_bol T s" and "s \<le> length T"
  shows "shift_invariant match_url_at T s"
  unfolding shift_invariant_def
proof
  fix q
  show "match_url_at (drop s T) q = map_option (shift_match s) (match_url_at T (s + q))"
    unfolding match_url_at_def Let_def drop_drop_add at_bol_drop [OF assms]
    by (simp add: shift_match_def)
qed

lemma shift_invariant_fence: "shift_invariant match_fence_at T s"
  unfolding shift_invariant_def
proof
  fix q
  have "q + 3 + s = s + q + 3" by simp
  then have a: "drop (q + 3) (drop s T) = drop (s + q + 3) T" by (simp only: drop_drop)
  show "match_fence_at (drop s T) q = map_option (shift_match s) (match_fence_at T (s + q))"
    unfolding match_fence_at_def drop_drop_add a
    by (simp add: shift_match_def add.assoc split: option.splits)
qed

lemma header_match_bol: "match_header_at T p = Some m \<Longrightarrow> at_bol T p \<and> take 2 (drop p T) = ''# ''"
  by (simp add: match_header_at_def Let_def split: if_splits)

lemma url_match_bol: "match_url_at T p = Some m \<Longrightarrow> at_bol T p"
  by (simp add: match_url_at_def Let_def split: if_splits)

lemma split_url_drop_first:
  assumes "boundaries False T \<noteq> []"
  shows "split_with_url_pattern (drop (m_start (hd (boundaries False T))) T)
       = split_with_url_pattern T"
proof -
  from assms obtain m rest where f: "finditer match_url_at T 0 = m # rest"
    by (cases "finditer match_url_at T 0") (simp_all add: boundaries_def)
  from finditer_first [OF wf_matcher_url f] have ms: "match_url_at T (m_start m) = Some m"
    by blast
  from url_match_bol [OF ms] have b: "at_bol T (m_start m)" .
  from wf_matcherD [OF wf_matcher_url ms] have l: "m_start m \<le> length T" by linarith
  have u: "\<And>x. (\<lambda>m. Some (strip (m_group2 m))) (shift_match (m_start m) x)
      = (\<lambda>m. Some (strip (m_group2 m))) x"
    by (simp add: shift_match_def)
  from drop_first_boundary [of match_url_at T m rest "\<lambda>m. Some (strip (m_group2 m))",
      OF wf_matcher_url f shift_invariant_url [OF b l] u]
  show ?thesis using f by (simp add: split_with_url_pattern_def boundaries_def)
qed

end
